theory Spec2Isabelle
  imports Complex_Main
begin

section \<open>Values exchanged between the host thread and the simulation engine\<close>

text \<open>
  The class \<open>WorldServerThread\<close> (\<open>src/source/core/StarText.cpp\<close>, from line 89 on) is the
  host of one \<open>WorldServer\<close> (the simulation engine).
  Connection ids, packets and spawn targets are opaque to the host; they are numbered
  here. A fault is a C++ exception derived from \<open>std::exception\<close>, the kind every
  handler of the file names (\<open>catch (std::exception const& e)\<close>); it carries its message.
  A call either returns a value or raises a fault, and in both cases it may have changed
  the state it worked on, so every fallible call yields an outcome together with the state
  it leaves behind.
\<close>

type_synonym ConnectionId = nat
type_synonym PacketPtr = nat
type_synonym SpawnTarget = nat
type_synonym Vec2F = "real \<times> real"
type_synonym WorldChunks = "(nat \<times> nat) list"
type_synonym fault = string

datatype 'a outcome = Returned 'a | Raised fault

text \<open>
  Modelled from the spec: the enum \<open>WorldServerFidelity\<close> is declared outside this file;
  the spec gives its levels, in ascending order, as Minimum, Low, Medium, High.
\<close>

datatype WorldServerFidelity = Minimum | Low | Medium | High

record Player =
  position :: Vec2F
  feetOffset :: Vec2F

datatype LogEntry =
  ExceptionCaught fault
  | ExceptionCaughtHandling ConnectionId fault
  | PeriodicSync

subsection \<open>The engine, as the host sees it\<close>

text \<open>
  The class \<open>WorldServer\<close> is declared outside this file. The host is verified for every
  engine: the engine is a state of an arbitrary type \<open>'w\<close> and a table of the member
  functions the host calls. \<open>clientIds\<close> and \<open>hasClient\<close> are the engine's const lookups in
  its client table; every other member may raise a fault and may change the engine.
\<close>

record 'w WorldServer =
  ws_clientIds :: "'w \<Rightarrow> ConnectionId list"
  ws_hasClient :: "'w \<Rightarrow> ConnectionId \<Rightarrow> bool"
  ws_spawnTargetValid :: "'w \<Rightarrow> SpawnTarget \<Rightarrow> bool outcome \<times> 'w"
  ws_addClient :: "'w \<Rightarrow> ConnectionId \<Rightarrow> SpawnTarget \<Rightarrow> bool \<Rightarrow> bool outcome \<times> 'w"
  ws_removeClient :: "'w \<Rightarrow> ConnectionId \<Rightarrow> PacketPtr list outcome \<times> 'w"
  ws_handleIncomingPackets :: "'w \<Rightarrow> ConnectionId \<Rightarrow> PacketPtr list \<Rightarrow> unit outcome \<times> 'w"
  ws_getOutgoingPackets :: "'w \<Rightarrow> ConnectionId \<Rightarrow> PacketPtr list outcome \<times> 'w"
  ws_setFidelity :: "'w \<Rightarrow> WorldServerFidelity \<Rightarrow> unit outcome \<times> 'w"
  ws_update :: "'w \<Rightarrow> unit outcome \<times> 'w"
  ws_sync :: "'w \<Rightarrow> unit outcome \<times> 'w"
  ws_clientPlayer :: "'w \<Rightarrow> ConnectionId \<Rightarrow> Player option outcome \<times> 'w"
  ws_pullNewPlanetType :: "'w \<Rightarrow> (string \<times> string) option outcome \<times> 'w"
  ws_readChunks :: "'w \<Rightarrow> WorldChunks outcome \<times> 'w"

subsection \<open>The host\<close>

text \<open>
  The members of \<open>WorldServerThread\<close>. \<open>m_clients\<close> is a hash set, the two queues are hash
  maps from a connection id to a list of packets. \<open>m_pause\<close> is a pointer to a flag owned
  by the caller: \<open>None\<close> is the null pointer, \<open>Some b\<close> the flag's value when it is read.
  \<open>logger\<close> collects what the host passes to \<open>Logger\<close>. The update action
  (\<open>m_updateAction\<close>) is a function on this very state, so it is handed to \<open>update\<close> as an
  argument instead of being stored in the record.
\<close>

record 'w WorldServerThread =
  m_worldServer :: 'w
  m_clients :: "ConnectionId set"
  m_incomingPacketQueue :: "ConnectionId \<rightharpoonup> PacketPtr list"
  m_outgoingPacketQueue :: "ConnectionId \<rightharpoonup> PacketPtr list"
  m_stop :: bool
  m_errorOccurred :: bool
  m_pause :: "bool option"
  logger :: "LogEntry list"

type_synonym 'w WorldServerAction =
  "'w WorldServerThread \<Rightarrow> unit outcome \<times> 'w WorldServerThread"

text \<open>
  \<open>m_queue[clientId]\<close> on a hash map creates an empty entry when the key is absent;
  \<open>take\<close> moves the value out and leaves an empty list behind; \<open>appendAll\<close> appends at the
  tail.
\<close>

definition subscript :: "(ConnectionId \<rightharpoonup> PacketPtr list) \<Rightarrow> ConnectionId \<Rightarrow> PacketPtr list" where
  "subscript q clientId = (case q clientId of None \<Rightarrow> [] | Some ps \<Rightarrow> ps)"

definition touch :: "(ConnectionId \<rightharpoonup> PacketPtr list) \<Rightarrow> ConnectionId \<Rightarrow> (ConnectionId \<rightharpoonup> PacketPtr list)" where
  "touch q clientId = q(clientId \<mapsto> subscript q clientId)"

definition take_queue ::
  "(ConnectionId \<rightharpoonup> PacketPtr list) \<Rightarrow> ConnectionId \<Rightarrow> PacketPtr list \<times> (ConnectionId \<rightharpoonup> PacketPtr list)" where
  "take_queue q clientId = (subscript q clientId, q(clientId \<mapsto> []))"

definition appendAll ::
  "(ConnectionId \<rightharpoonup> PacketPtr list) \<Rightarrow> ConnectionId \<Rightarrow> PacketPtr list \<Rightarrow> (ConnectionId \<rightharpoonup> PacketPtr list)" where
  "appendAll q clientId ps = q(clientId \<mapsto> subscript q clientId @ ps)"

text \<open>A call of an engine member on the host's engine: the engine's new state is stored back.\<close>

definition engine_call :: "('w \<Rightarrow> 'a outcome \<times> 'w) \<Rightarrow> 'w WorldServerThread \<Rightarrow> 'a outcome \<times> 'w WorldServerThread" where
  "engine_call f s = (case f (m_worldServer s) of (r, w) \<Rightarrow> (r, s\<lparr>m_worldServer := w\<rparr>))"

text \<open>
  The handler shared by the public accessors: log the fault, set the sticky flag, return
  the given safe value.
\<close>

definition caught :: "'a \<Rightarrow> fault \<Rightarrow> 'w WorldServerThread \<Rightarrow> 'a outcome \<times> 'w WorldServerThread" where
  "caught safe e s = (Returned safe, s\<lparr>logger := logger s @ [ExceptionCaught e], m_errorOccurred := True\<rparr>)"

definition try_catch ::
  "('w WorldServerThread \<Rightarrow> 'a outcome \<times> 'w WorldServerThread) \<Rightarrow>
   (fault \<Rightarrow> 'w WorldServerThread \<Rightarrow> 'a outcome \<times> 'w WorldServerThread) \<Rightarrow>
   'w WorldServerThread \<Rightarrow> 'a outcome \<times> 'w WorldServerThread" where
  "try_catch body handler s =
     (case body s of
        (Returned v, s') \<Rightarrow> (Returned v, s')
      | (Raised e, s') \<Rightarrow> handler e s')"

section \<open>The public accessors\<close>

definition serverErrorOccurred :: "'w WorldServerThread \<Rightarrow> bool" where
  "serverErrorOccurred s = m_errorOccurred s"

definition spawnTargetValid ::
  "'w WorldServer \<Rightarrow> SpawnTarget \<Rightarrow> 'w WorldServerThread \<Rightarrow> bool outcome \<times> 'w WorldServerThread" where
  "spawnTargetValid E spawnTarget =
     try_catch (engine_call (\<lambda>w. ws_spawnTargetValid E w spawnTarget)) (caught False)"

definition addClient ::
  "'w WorldServer \<Rightarrow> ConnectionId \<Rightarrow> SpawnTarget \<Rightarrow> bool \<Rightarrow> 'w WorldServerThread \<Rightarrow>
   bool outcome \<times> 'w WorldServerThread" where
  "addClient E clientId spawnTarget isLocal =
     try_catch
       (\<lambda>s. case engine_call (\<lambda>w. ws_addClient E w clientId spawnTarget isLocal) s of
               (Returned accepted, s') \<Rightarrow>
                 if accepted then (Returned True, s'\<lparr>m_clients := insert clientId (m_clients s')\<rparr>)
                 else (Returned False, s')
             | (Raised e, s') \<Rightarrow> (Raised e, s'))
       (caught False)"

text \<open>
  \<open>removeClient\<close>: the local \<open>outgoingPackets\<close> is assigned inside the \<open>try\<close> block and
  returned after it, so the block is modelled on the pair of that local and the host. A
  fault leaves the local as it was when the fault was raised.
\<close>

definition removeClient_try ::
  "'w WorldServer \<Rightarrow> ConnectionId \<Rightarrow> 'w WorldServerThread \<Rightarrow>
   unit outcome \<times> PacketPtr list \<times> 'w WorldServerThread" where
  "removeClient_try E clientId s =
     (let (incomingPackets, inq) = take_queue (m_incomingPacketQueue s) clientId;
          s1 = s\<lparr>m_incomingPacketQueue := inq\<rparr>
      in case (if ws_hasClient E (m_worldServer s1) clientId
               then engine_call (\<lambda>w. ws_handleIncomingPackets E w clientId incomingPackets) s1
               else (Returned (), s1)) of
           (Raised e, s2) \<Rightarrow> (Raised e, [], s2)
         | (Returned u, s2) \<Rightarrow>
             (let (outgoingPackets, outq) = take_queue (m_outgoingPacketQueue s2) clientId;
                  s3 = s2\<lparr>m_outgoingPacketQueue := outq\<rparr>
              in if ws_hasClient E (m_worldServer s3) clientId
                 then (case engine_call (\<lambda>w. ws_removeClient E w clientId) s3 of
                         (Raised e, s4) \<Rightarrow> (Raised e, outgoingPackets, s4)
                       | (Returned final, s4) \<Rightarrow> (Returned (), outgoingPackets @ final, s4))
                 else (Returned (), outgoingPackets, s3)))"

definition unregister :: "ConnectionId \<Rightarrow> 'w WorldServerThread \<Rightarrow> 'w WorldServerThread" where
  "unregister clientId s =
     s\<lparr>m_clients := m_clients s - {clientId},
       m_incomingPacketQueue := (m_incomingPacketQueue s)(clientId := None),
       m_outgoingPacketQueue := (m_outgoingPacketQueue s)(clientId := None)\<rparr>"

definition removeClient ::
  "'w WorldServer \<Rightarrow> ConnectionId \<Rightarrow> 'w WorldServerThread \<Rightarrow>
   PacketPtr list outcome \<times> 'w WorldServerThread" where
  "removeClient E clientId s =
     (if clientId \<notin> m_clients s then (Returned [], s)
      else case removeClient_try E clientId s of
             (Returned u, outgoingPackets, s') \<Rightarrow> (Returned outgoingPackets, unregister clientId s')
           | (Raised e, outgoingPackets, s') \<Rightarrow>
               (Returned outgoingPackets,
                unregister clientId
                  (s'\<lparr>logger := logger s' @ [ExceptionCaught e], m_errorOccurred := True\<rparr>)))"

definition clients :: "'w WorldServerThread \<Rightarrow> ConnectionId set" where
  "clients s = m_clients s"

definition hasClient :: "'w WorldServerThread \<Rightarrow> ConnectionId \<Rightarrow> bool" where
  "hasClient s clientId = (clientId \<in> m_clients s)"

definition erroredClients :: "'w WorldServer \<Rightarrow> 'w WorldServerThread \<Rightarrow> ConnectionId set" where
  "erroredClients E s = m_clients s - set (ws_clientIds E (m_worldServer s))"

definition pushIncomingPackets ::
  "ConnectionId \<Rightarrow> PacketPtr list \<Rightarrow> 'w WorldServerThread \<Rightarrow> 'w WorldServerThread" where
  "pushIncomingPackets clientId packets s =
     s\<lparr>m_incomingPacketQueue := appendAll (m_incomingPacketQueue s) clientId packets\<rparr>"

definition pullOutgoingPackets ::
  "ConnectionId \<Rightarrow> 'w WorldServerThread \<Rightarrow> PacketPtr list \<times> 'w WorldServerThread" where
  "pullOutgoingPackets clientId s =
     (case take_queue (m_outgoingPacketQueue s) clientId of
        (packets, outq) \<Rightarrow> (packets, s\<lparr>m_outgoingPacketQueue := outq\<rparr>))"

definition playerRevivePosition ::
  "'w WorldServer \<Rightarrow> ConnectionId \<Rightarrow> 'w WorldServerThread \<Rightarrow> Vec2F option outcome \<times> 'w WorldServerThread" where
  "playerRevivePosition E clientId =
     try_catch
       (\<lambda>s. case engine_call (\<lambda>w. ws_clientPlayer E w clientId) s of
               (Returned (Some player), s') \<Rightarrow>
                 (Returned (Some (fst (position player) + fst (feetOffset player),
                                  snd (position player) + snd (feetOffset player))), s')
             | (Returned None, s') \<Rightarrow> (Returned None, s')
             | (Raised e, s') \<Rightarrow> (Raised e, s'))
       (caught None)"

definition pullNewPlanetType ::
  "'w WorldServer \<Rightarrow> 'w WorldServerThread \<Rightarrow> (string \<times> string) option outcome \<times> 'w WorldServerThread" where
  "pullNewPlanetType E = try_catch (engine_call (ws_pullNewPlanetType E)) (caught None)"

text \<open>
  \<open>executeAction\<close> locks and calls the action; there is no handler. An empty
  \<open>std::function\<close> (\<open>None\<close>) raises \<open>std::bad_function_call\<close> when called.
\<close>

definition executeAction ::
  "'w WorldServerAction option \<Rightarrow> 'w WorldServerThread \<Rightarrow> unit outcome \<times> 'w WorldServerThread" where
  "executeAction action s =
     (case action of
        None \<Rightarrow> (Raised ''bad_function_call'', s)
      | Some act \<Rightarrow> act s)"

definition readChunks ::
  "'w WorldServer \<Rightarrow> 'w WorldServerThread \<Rightarrow> WorldChunks outcome \<times> 'w WorldServerThread" where
  "readChunks E = try_catch (engine_call (ws_readChunks E)) (caught [])"

definition sync :: "'w WorldServer \<Rightarrow> 'w WorldServerThread \<Rightarrow> unit outcome \<times> 'w WorldServerThread" where
  "sync E s = engine_call (ws_sync E) (s\<lparr>logger := logger s @ [PeriodicSync]\<rparr>)"


definition start :: "'w WorldServerThread \<Rightarrow> 'w WorldServerThread" where
  "start s = s\<lparr>m_stop := False, m_errorOccurred := False\<rparr>"

definition stop :: "'w WorldServerThread \<Rightarrow> 'w WorldServerThread" where
  "stop s = s\<lparr>m_stop := True\<rparr>"

definition setPause :: "bool option \<Rightarrow> 'w WorldServerThread \<Rightarrow> 'w WorldServerThread" where
  "setPause pause s = s\<lparr>m_pause := pause\<rparr>"

text \<open>
  The destructor: stop, join, then \<open>removeClient\<close> for every id of the list the engine
  returns (the list is evaluated once, before the loop).
\<close>

definition destructor :: "'w WorldServer \<Rightarrow> 'w WorldServerThread \<Rightarrow> 'w WorldServerThread" where
  "destructor E s =
     (let s1 = s\<lparr>m_stop := True\<rparr>
      in fold (\<lambda>clientId s'. snd (removeClient E clientId s')) (ws_clientIds E (m_worldServer s1)) s1)"

section \<open>One tick: \<open>update\<close>\<close>

subsection \<open>The list of client ids and its removal during the loop\<close>

text \<open>
  \<open>unerroredClientIds\<close> is a \<open>List<ConnectionId>\<close>, a \<open>std::vector\<close>. The first loop of
  \<open>update\<close> is a range-based \<open>for\<close> over it, which fixes its begin and end when the loop
  starts, and the handler inside the loop calls \<open>unerroredClientIds.remove(clientId)\<close>, which
  erases every element equal to \<open>clientId\<close> in place: the elements behind an erased slot
  move one slot down and the size shrinks, while the loop goes on to the next slot until
  the end it fixed at the start. The C++ standard leaves the further steps of such a loop
  undefined; the model follows what a contiguous vector of integers does. The vector is
  modelled as its slots together with its size: the slots at and beyond the size keep the
  value they last held, and the loop reads slot \<open>i\<close> for every \<open>i\<close> below the original
  size.
\<close>

type_synonym 'a vector = "'a list \<times> nat"

definition elements :: "'a vector \<Rightarrow> 'a list" where
  "elements v = take (snd v) (fst v)"

definition erase_at :: "nat \<Rightarrow> 'a vector \<Rightarrow> 'a vector" where
  "erase_at i v =
     (take i (fst v) @ drop (Suc i) (take (snd v) (fst v)) @ drop (snd v - 1) (fst v), snd v - 1)"

function remove_from :: "nat \<Rightarrow> 'a \<Rightarrow> 'a vector \<Rightarrow> 'a vector" where
  "remove_from i e v =
     (if i < snd v
      then (if fst v ! i = e then remove_from i e (erase_at i v) else remove_from (Suc i) e v)
      else v)"
  by pat_completeness auto
termination
  by (relation "measure (\<lambda>(i, e, v). snd v - i)") (auto simp: erase_at_def)

declare remove_from.simps [simp del]

definition list_remove :: "'a \<Rightarrow> 'a vector \<Rightarrow> 'a vector" where
  "list_remove e v = remove_from 0 e v"

subsection \<open>The two loops and the tick\<close>

text \<open>
  The body of the first loop for one client id: drain its incoming queue, deliver; in the
  handler, log, create the outgoing entry (\<open>m_outgoingPacketQueue[clientId]\<close> is evaluated
  before the argument of \<open>appendAll\<close>), remove the client from the engine, append what the
  engine returns, and remove the id from the list. A fault of the engine's \<open>removeClient\<close>
  inside the handler leaves \<open>update\<close>.
\<close>

definition deliverOne ::
  "'w WorldServer \<Rightarrow> ConnectionId \<Rightarrow> ConnectionId vector \<Rightarrow> 'w WorldServerThread \<Rightarrow>
   unit outcome \<times> ConnectionId vector \<times> 'w WorldServerThread" where
  "deliverOne E clientId ids s =
     (let (incomingPackets, inq) = take_queue (m_incomingPacketQueue s) clientId;
          s1 = s\<lparr>m_incomingPacketQueue := inq\<rparr>
      in case engine_call (\<lambda>w. ws_handleIncomingPackets E w clientId incomingPackets) s1 of
           (Returned u, s2) \<Rightarrow> (Returned (), ids, s2)
         | (Raised e, s2) \<Rightarrow>
             (let s3 = s2\<lparr>logger := logger s2 @ [ExceptionCaughtHandling clientId e]\<rparr>;
                  s4 = s3\<lparr>m_outgoingPacketQueue := touch (m_outgoingPacketQueue s3) clientId\<rparr>
              in case engine_call (\<lambda>w. ws_removeClient E w clientId) s4 of
                   (Raised e', s5) \<Rightarrow> (Raised e', ids, s5)
                 | (Returned final, s5) \<Rightarrow>
                     (Returned (), list_remove clientId ids,
                      s5\<lparr>m_outgoingPacketQueue := appendAll (m_outgoingPacketQueue s5) clientId final\<rparr>)))"

function deliverIncoming ::
  "'w WorldServer \<Rightarrow> nat \<Rightarrow> nat \<Rightarrow> ConnectionId vector \<Rightarrow> 'w WorldServerThread \<Rightarrow>
   unit outcome \<times> ConnectionId vector \<times> 'w WorldServerThread" where
  "deliverIncoming E end i ids s =
     (if i < end
      then (case deliverOne E (fst ids ! i) ids s of
              (Returned u, ids', s') \<Rightarrow> deliverIncoming E end (Suc i) ids' s'
            | (Raised e, ids', s') \<Rightarrow> (Raised e, ids', s'))
      else (Returned (), ids, s))"
  by pat_completeness auto
termination
  by (relation "measure (\<lambda>(E, end, i, ids, s). end - i)") auto

declare deliverIncoming.simps [simp del]

fun collectOutgoing ::
  "'w WorldServer \<Rightarrow> ConnectionId list \<Rightarrow> 'w WorldServerThread \<Rightarrow> unit outcome \<times> 'w WorldServerThread" where
  "collectOutgoing E [] s = (Returned (), s)"
| "collectOutgoing E (clientId # rest) s =
     (case engine_call (\<lambda>w. ws_getOutgoingPackets E w clientId) s of
        (Raised e, s') \<Rightarrow> (Raised e, s')
      | (Returned outgoingPackets, s') \<Rightarrow>
          collectOutgoing E rest
            (s'\<lparr>m_outgoingPacketQueue := appendAll (m_outgoingPacketQueue s') clientId outgoingPackets\<rparr>))"

text \<open>Lines 340 and 341: the engine's update step runs unless the pause flag is set.\<close>

definition updateUnlessPaused ::
  "'w WorldServer \<Rightarrow> 'w WorldServerThread \<Rightarrow> unit outcome \<times> 'w WorldServerThread" where
  "updateUnlessPaused E s =
     (if m_pause s = None \<or> m_pause s = Some False
      then engine_call (ws_update E) s else (Returned (), s))"

text \<open>
  \<open>update\<close> has no handler of its own besides the one in the first loop: a fault of
  \<open>setFidelity\<close>, of the engine's \<open>update\<close>, of \<open>getOutgoingPackets\<close> or of the update action
  leaves it.
\<close>

definition update ::
  "'w WorldServer \<Rightarrow> 'w WorldServerAction option \<Rightarrow> WorldServerFidelity \<Rightarrow> 'w WorldServerThread \<Rightarrow>
   unit outcome \<times> 'w WorldServerThread" where
  "update E m_updateAction fidelity s =
     (let unerroredClientIds = ws_clientIds E (m_worldServer s)
      in case deliverIncoming E (length unerroredClientIds) 0
                (unerroredClientIds, length unerroredClientIds) s of
           (Raised e, ids, s1) \<Rightarrow> (Raised e, s1)
         | (Returned u, ids, s1) \<Rightarrow>
             (case engine_call (\<lambda>w. ws_setFidelity E w fidelity) s1 of
                (Raised e, s2) \<Rightarrow> (Raised e, s2)
              | (Returned u, s2) \<Rightarrow>
                  (case updateUnlessPaused E s2 of
                     (Raised e, s3) \<Rightarrow> (Raised e, s3)
                   | (Returned u, s3) \<Rightarrow>
                       (case collectOutgoing E (elements ids) s3 of
                          (Raised e, s4) \<Rightarrow> (Raised e, s4)
                        | (Returned u, s4) \<Rightarrow>
                            (case m_updateAction of
                               None \<Rightarrow> (Returned (), s4)
                             | Some action \<Rightarrow> action s4)))))"

section \<open>The run loop and the fidelity controller\<close>

text \<open>
  The enum \<open>WorldServerFidelity\<close> is compared and stepped through its integer values
  (\<open>(WorldServerFidelity)((int)automaticFidelity - 1)\<close>).
\<close>

definition fidelityToInt :: "WorldServerFidelity \<Rightarrow> int" where
  "fidelityToInt f = (case f of Minimum \<Rightarrow> 0 | Low \<Rightarrow> 1 | Medium \<Rightarrow> 2 | High \<Rightarrow> 3)"

definition fidelityFromInt :: "int \<Rightarrow> WorldServerFidelity option" where
  "fidelityFromInt n =
     (if n = 0 then Some Minimum else if n = 1 then Some Low else if n = 2 then Some Medium
      else if n = 3 then Some High else None)"

text \<open>
  What \<open>run\<close> reads before the loop, the two locals the loop carries, and what one
  iteration observes of the clocks and of the other threads: whether \<open>stop\<close> was called
  before the loop condition is tested, whether the storage timer is up, and the spare time
  of the tick approacher. The scores are C++ doubles, taken here as reals.
\<close>

record RunConfig =
  fidelityDecrementScore :: real
  fidelityIncrementScore :: real
  lockedFidelity :: "WorldServerFidelity option"

record LoopVars =
  fidelityScore :: real
  automaticFidelity :: WorldServerFidelity

record TickObservation =
  stopRequested :: bool
  storageTimeUp :: bool
  spareTime :: real

text \<open>
  Lines 296 to 309, the controller. A cast of an integer outside the enum's values cannot
  happen behind the two guards; the model keeps the level in that case.
\<close>

definition stepFidelity :: "int \<Rightarrow> WorldServerFidelity \<Rightarrow> WorldServerFidelity" where
  "stepFidelity d f = (case fidelityFromInt (fidelityToInt f + d) of Some f' \<Rightarrow> f' | None \<Rightarrow> f)"

definition adjustFidelity :: "RunConfig \<Rightarrow> real \<Rightarrow> LoopVars \<Rightarrow> LoopVars" where
  "adjustFidelity cfg spare vars =
     (let v1 = vars\<lparr>fidelityScore := fidelityScore vars + spare\<rparr>;
          v2 = (if fidelityScore v1 \<le> fidelityDecrementScore cfg
                then v1\<lparr>automaticFidelity :=
                          (if fidelityToInt (automaticFidelity v1) > fidelityToInt Minimum
                           then stepFidelity (- 1) (automaticFidelity v1)
                           else automaticFidelity v1),
                        fidelityScore := 0\<rparr>
                else v1);
          v3 = (if fidelityScore v2 \<ge> fidelityIncrementScore cfg
                then v2\<lparr>automaticFidelity :=
                          (if fidelityToInt (automaticFidelity v2) < fidelityToInt High
                           then stepFidelity 1 (automaticFidelity v2)
                           else automaticFidelity v2),
                        fidelityScore := 0\<rparr>
                else v2)
      in v3)"

definition appliedFidelity :: "RunConfig \<Rightarrow> LoopVars \<Rightarrow> WorldServerFidelity" where
  "appliedFidelity cfg vars =
     (case lockedFidelity cfg of Some f \<Rightarrow> f | None \<Rightarrow> automaticFidelity vars)"

definition run_iteration ::
  "'w WorldServer \<Rightarrow> 'w WorldServerAction option \<Rightarrow> RunConfig \<Rightarrow> TickObservation \<Rightarrow>
   LoopVars \<times> 'w WorldServerThread \<Rightarrow> unit outcome \<times> LoopVars \<times> 'w WorldServerThread" where
  "run_iteration E m_updateAction cfg obs st =
     (case st of (vars, s) \<Rightarrow>
        (case update E m_updateAction (appliedFidelity cfg vars) s of
           (Raised e, s1) \<Rightarrow> (Raised e, vars, s1)
         | (Returned u, s1) \<Rightarrow>
             (case (if storageTimeUp obs then sync E s1 else (Returned (), s1)) of
                (Raised e, s2) \<Rightarrow> (Raised e, vars, s2)
              | (Returned u, s2) \<Rightarrow> (Returned (), adjustFidelity cfg (spareTime obs) vars, s2))))"

text \<open>
  The loop runs until \<open>m_stop\<close> or \<open>m_errorOccurred\<close> is set, which may be never; it is
  run here along a finite list of observations, and says whether it left the loop or used
  the list up with the loop condition still true.
\<close>

datatype LoopEnd = Exited | StillRunning

fun run_loop ::
  "'w WorldServer \<Rightarrow> 'w WorldServerAction option \<Rightarrow> RunConfig \<Rightarrow> TickObservation list \<Rightarrow>
   LoopVars \<times> 'w WorldServerThread \<Rightarrow> LoopEnd outcome \<times> LoopVars \<times> 'w WorldServerThread" where
  "run_loop E m_updateAction cfg [] st = (Returned StillRunning, st)"
| "run_loop E m_updateAction cfg (obs # rest) st =
     (case st of (vars, s) \<Rightarrow>
        (let s0 = s\<lparr>m_stop := m_stop s \<or> stopRequested obs\<rparr>
         in if \<not> m_stop s0 \<and> \<not> m_errorOccurred s0
            then (case run_iteration E m_updateAction cfg obs (vars, s0) of
                    (Raised e, st') \<Rightarrow> (Raised e, st')
                  | (Returned u, st') \<Rightarrow> run_loop E m_updateAction cfg rest st')
            else (Returned Exited, vars, s0)))"

definition initialVars :: LoopVars where
  "initialVars = \<lparr>fidelityScore = 0, automaticFidelity = Medium\<rparr>"

text \<open>
  \<open>run\<close>: reading the configuration may raise (a missing asset, an unknown fidelity name);
  the whole body is inside one handler, which logs and sets the sticky flag.
\<close>

definition run ::
  "'w WorldServer \<Rightarrow> 'w WorldServerAction option \<Rightarrow> RunConfig outcome \<Rightarrow> TickObservation list \<Rightarrow>
   'w WorldServerThread \<Rightarrow> LoopEnd outcome \<times> 'w WorldServerThread" where
  "run E m_updateAction config observations =
     try_catch
       (\<lambda>s. case config of
               Raised e \<Rightarrow> (Raised e, s)
             | Returned cfg \<Rightarrow>
                 (case run_loop E m_updateAction cfg observations (initialVars, s) of
                    (r, vars, s') \<Rightarrow> (r, s')))
       (caught Exited)"


section \<open>A concrete engine and concrete hosts\<close>

text \<open>
  An engine to run the host on: it keeps a client table, records every delivery, echoes
  to a client everything delivered for it so far, and raises a fault when a delivery holds
  the packet \<open>0\<close> or, for every fallible member, when its state is marked broken.
\<close>

record EchoWorld =
  e_clients :: "ConnectionId list"
  e_delivered :: "(ConnectionId \<times> PacketPtr list) list"
  e_fidelity :: "WorldServerFidelity option"
  e_updates :: nat
  e_broken :: bool

definition guarded :: "EchoWorld \<Rightarrow> 'a outcome \<times> EchoWorld \<Rightarrow> 'a outcome \<times> EchoWorld" where
  "guarded w r = (if e_broken w then (Raised ''world broken'', w) else r)"

definition echoEngine :: "EchoWorld WorldServer" where
  "echoEngine =
     \<lparr>ws_clientIds = e_clients,
      ws_hasClient = (\<lambda>w c. c \<in> set (e_clients w)),
      ws_spawnTargetValid = (\<lambda>w t. guarded w (Returned (t < 100), w)),
      ws_addClient = (\<lambda>w c t l. guarded w
         (if t < 100 then (Returned True, w\<lparr>e_clients := e_clients w @ [c]\<rparr>) else (Returned False, w))),
      ws_removeClient = (\<lambda>w c. guarded w (Returned [1000 + c], w\<lparr>e_clients := removeAll c (e_clients w)\<rparr>)),
      ws_handleIncomingPackets = (\<lambda>w c ps. guarded w
         (if 0 \<in> set ps then (Raised ''bad packet'', w)
          else (Returned (), w\<lparr>e_delivered := e_delivered w @ [(c, ps)]\<rparr>))),
      ws_getOutgoingPackets = (\<lambda>w c. guarded w
         (Returned (concat (map snd (filter (\<lambda>d. fst d = c) (e_delivered w)))), w)),
      ws_setFidelity = (\<lambda>w f. guarded w (Returned (), w\<lparr>e_fidelity := Some f\<rparr>)),
      ws_update = (\<lambda>w. guarded w (Returned (), w\<lparr>e_updates := Suc (e_updates w)\<rparr>)),
      ws_sync = (\<lambda>w. guarded w (Returned (), w)),
      ws_clientPlayer = (\<lambda>w c. guarded w (Returned None, w)),
      ws_pullNewPlanetType = (\<lambda>w. guarded w (Returned None, w)),
      ws_readChunks = (\<lambda>w. guarded w (Returned [], w))\<rparr>"

definition echoWorld :: "ConnectionId list \<Rightarrow> EchoWorld" where
  "echoWorld ids = \<lparr>e_clients = ids, e_delivered = [], e_fidelity = None, e_updates = 0, e_broken = False\<rparr>"

text \<open>
  \<open>hostA\<close>: three clients known to the host and to the engine; the incoming queue of
  client 1 holds the packet the engine faults on, and client 1 has one packet pending in
  its outgoing queue.
\<close>

definition hostA :: "EchoWorld WorldServerThread" where
  "hostA =
     \<lparr>m_worldServer = echoWorld [1, 2, 3],
      m_clients = {1, 2, 3},
      m_incomingPacketQueue = [1 \<mapsto> [0], 2 \<mapsto> [21, 22], 3 \<mapsto> [31]],
      m_outgoingPacketQueue = [1 \<mapsto> [91]],
      m_stop = False,
      m_errorOccurred = False,
      m_pause = None,
      logger = []\<rparr>"

text \<open>
  \<open>hostB\<close>: a host with no client and nothing queued. \<open>hostBroken\<close>: \<open>hostA\<close> with an
  engine every fallible member of which raises.
\<close>

definition hostB :: "EchoWorld WorldServerThread" where
  "hostB =
     \<lparr>m_worldServer = echoWorld [],
      m_clients = {},
      m_incomingPacketQueue = Map.empty,
      m_outgoingPacketQueue = Map.empty,
      m_stop = False,
      m_errorOccurred = False,
      m_pause = None,
      logger = []\<rparr>"

definition hostBroken :: "EchoWorld WorldServerThread" where
  "hostBroken = hostA\<lparr>m_worldServer := (echoWorld [1, 2, 3])\<lparr>e_broken := True\<rparr>\<rparr>"

definition raisingAction :: "EchoWorld WorldServerAction" where
  "raisingAction s = (Raised ''action failed'', s)"

definition countingAction :: "EchoWorld WorldServerAction" where
  "countingAction s = (Returned (), s\<lparr>m_worldServer := (m_worldServer s)\<lparr>e_updates := Suc (e_updates (m_worldServer s))\<rparr>\<rparr>)"

section \<open>Sequences of operations on the host\<close>

text \<open>
  The calls other threads and the run loop make on one host, each taken as one step of a
  history. \<open>addClient\<close>, \<open>removeClient\<close> and \<open>update\<close> hold \<open>m_mutex\<close> for their whole body;
  a push or a pull holds \<open>m_queueMutex\<close> for its whole body and touches one queue entry
  only, and \<open>update\<close> takes \<open>m_queueMutex\<close> around each of its queue accesses: a push or
  pull that falls between two of them is taken as a step before or after the tick. A tick
  is one call of \<open>update\<close>, whether it returns or raises into \<open>run\<close>.
\<close>

datatype Operation =
  PushIncoming ConnectionId "PacketPtr list"
  | PullOutgoing ConnectionId
  | Tick WorldServerFidelity
  | AddClient ConnectionId SpawnTarget bool
  | RemoveClient ConnectionId
  | SetPause "bool option"

definition perform ::
  "'w WorldServer \<Rightarrow> 'w WorldServerAction option \<Rightarrow> Operation \<Rightarrow> 'w WorldServerThread \<Rightarrow> 'w WorldServerThread" where
  "perform E m_updateAction op s =
     (case op of
        PushIncoming clientId packets \<Rightarrow> pushIncomingPackets clientId packets s
      | PullOutgoing clientId \<Rightarrow> snd (pullOutgoingPackets clientId s)
      | Tick fidelity \<Rightarrow> snd (update E m_updateAction fidelity s)
      | AddClient clientId spawnTarget isLocal \<Rightarrow> snd (addClient E clientId spawnTarget isLocal s)
      | RemoveClient clientId \<Rightarrow> snd (removeClient E clientId s)
      | SetPause pause \<Rightarrow> setPause pause s)"

definition perform_all ::
  "'w WorldServer \<Rightarrow> 'w WorldServerAction option \<Rightarrow> Operation list \<Rightarrow> 'w WorldServerThread \<Rightarrow> 'w WorldServerThread" where
  "perform_all E m_updateAction ops s = fold (perform E m_updateAction) ops s"

text \<open>
  The operations that only move packets: pushes, pulls, ticks and changes of the pause
  flag.
\<close>

definition queue_traffic :: "Operation \<Rightarrow> bool" where
  "queue_traffic op =
     (case op of
        PushIncoming clientId packets \<Rightarrow> True
      | PullOutgoing clientId \<Rightarrow> True
      | Tick fidelity \<Rightarrow> True
      | SetPause pause \<Rightarrow> True
      | AddClient clientId spawnTarget isLocal \<Rightarrow> False
      | RemoveClient clientId \<Rightarrow> False)"

text \<open>
  Along a history, for one client id: everything its \<open>pullOutgoingPackets\<close> calls returned,
  in the order of the calls, and everything its \<open>pushIncomingPackets\<close> calls were given, in
  the order of the calls.
\<close>

fun pulled ::
  "'w WorldServer \<Rightarrow> 'w WorldServerAction option \<Rightarrow> ConnectionId \<Rightarrow> Operation list \<Rightarrow>
   'w WorldServerThread \<Rightarrow> PacketPtr list" where
  "pulled E m_updateAction clientId [] s = []"
| "pulled E m_updateAction clientId (op # ops) s =
     (if op = PullOutgoing clientId then fst (pullOutgoingPackets clientId s) else []) @
     pulled E m_updateAction clientId ops (perform E m_updateAction op s)"

fun pushed :: "ConnectionId \<Rightarrow> Operation list \<Rightarrow> PacketPtr list" where
  "pushed clientId [] = []"
| "pushed clientId (op # ops) =
     (case op of
        PushIncoming c packets \<Rightarrow> (if c = clientId then packets else [])
      | _ \<Rightarrow> []) @
     pushed clientId ops"

subsection \<open>What the engine is given and what it returns\<close>

text \<open>
  To say what the engine was given and what it produced, any engine is run with a record
  at its side: the state is the engine's state and the list of the events so far, every
  call of \<open>handleIncomingPackets\<close> adds the client id and the packets it was called with,
  every call of \<open>getOutgoingPackets\<close> or \<open>removeClient\<close> that returns adds the client id and
  the packets it returned, and every member does to the engine's state and returns what
  it does without the record.
\<close>

datatype Event =
  Delivered ConnectionId "PacketPtr list"
  | Produced ConnectionId "PacketPtr list"

definition unrecorded :: "'a outcome \<times> 'w \<Rightarrow> 'w \<times> Event list \<Rightarrow> 'a outcome \<times> ('w \<times> Event list)" where
  "unrecorded result x = (fst result, (snd result, snd x))"

definition recorded ::
  "ConnectionId \<Rightarrow> PacketPtr list outcome \<times> 'w \<Rightarrow> 'w \<times> Event list \<Rightarrow>
   PacketPtr list outcome \<times> ('w \<times> Event list)" where
  "recorded c result x =
     (case result of
        (Returned packets, w) \<Rightarrow> (Returned packets, (w, snd x @ [Produced c packets]))
      | (Raised e, w) \<Rightarrow> (Raised e, (w, snd x)))"

definition recording :: "'w WorldServer \<Rightarrow> ('w \<times> Event list) WorldServer" where
  "recording E =
     \<lparr>ws_clientIds = (\<lambda>x. ws_clientIds E (fst x)),
      ws_hasClient = (\<lambda>x c. ws_hasClient E (fst x) c),
      ws_spawnTargetValid = (\<lambda>x t. unrecorded (ws_spawnTargetValid E (fst x) t) x),
      ws_addClient = (\<lambda>x c t l. unrecorded (ws_addClient E (fst x) c t l) x),
      ws_removeClient = (\<lambda>x c. recorded c (ws_removeClient E (fst x) c) x),
      ws_handleIncomingPackets = (\<lambda>x c packets.
         (fst (ws_handleIncomingPackets E (fst x) c packets),
          (snd (ws_handleIncomingPackets E (fst x) c packets), snd x @ [Delivered c packets]))),
      ws_getOutgoingPackets = (\<lambda>x c. recorded c (ws_getOutgoingPackets E (fst x) c) x),
      ws_setFidelity = (\<lambda>x f. unrecorded (ws_setFidelity E (fst x) f) x),
      ws_update = (\<lambda>x. unrecorded (ws_update E (fst x)) x),
      ws_sync = (\<lambda>x. unrecorded (ws_sync E (fst x)) x),
      ws_clientPlayer = (\<lambda>x c. unrecorded (ws_clientPlayer E (fst x) c) x),
      ws_pullNewPlanetType = (\<lambda>x. unrecorded (ws_pullNewPlanetType E (fst x)) x),
      ws_readChunks = (\<lambda>x. unrecorded (ws_readChunks E (fst x)) x)\<rparr>"

text \<open>
  A host with the record put beside its engine, the host without it, and an update action
  carried over: it acts on the host without the record and leaves the record as it is.
\<close>

definition observe :: "Event list \<Rightarrow> 'w WorldServerThread \<Rightarrow> ('w \<times> Event list) WorldServerThread" where
  "observe events s =
     \<lparr>m_worldServer = (m_worldServer s, events),
      m_clients = m_clients s,
      m_incomingPacketQueue = m_incomingPacketQueue s,
      m_outgoingPacketQueue = m_outgoingPacketQueue s,
      m_stop = m_stop s,
      m_errorOccurred = m_errorOccurred s,
      m_pause = m_pause s,
      logger = logger s\<rparr>"

definition unobserved :: "('w \<times> Event list) WorldServerThread \<Rightarrow> 'w WorldServerThread" where
  "unobserved s =
     \<lparr>m_worldServer = fst (m_worldServer s),
      m_clients = m_clients s,
      m_incomingPacketQueue = m_incomingPacketQueue s,
      m_outgoingPacketQueue = m_outgoingPacketQueue s,
      m_stop = m_stop s,
      m_errorOccurred = m_errorOccurred s,
      m_pause = m_pause s,
      logger = logger s\<rparr>"

definition observed_action :: "'w WorldServerAction \<Rightarrow> ('w \<times> Event list) WorldServerAction" where
  "observed_action action s =
     (case action (unobserved s) of (r, s') \<Rightarrow> (r, observe (snd (m_worldServer s)) s'))"

definition observed_hook :: "'w WorldServerAction option \<Rightarrow> ('w \<times> Event list) WorldServerAction option" where
  "observed_hook m_updateAction = map_option observed_action m_updateAction"

text \<open>
  The events of a history: the record after the history, started empty. For one client id,
  the packets the engine produced and the packets the engine was given, in the order of
  the events.
\<close>

definition engine_trace ::
  "'w WorldServer \<Rightarrow> 'w WorldServerAction option \<Rightarrow> Operation list \<Rightarrow> 'w WorldServerThread \<Rightarrow> Event list" where
  "engine_trace E m_updateAction ops s =
     snd (m_worldServer (perform_all (recording E) (observed_hook m_updateAction) ops (observe [] s)))"

fun produced_for :: "ConnectionId \<Rightarrow> Event list \<Rightarrow> PacketPtr list" where
  "produced_for clientId [] = []"
| "produced_for clientId (Produced c packets # events) =
     (if c = clientId then packets else []) @ produced_for clientId events"
| "produced_for clientId (Delivered c packets # events) = produced_for clientId events"

fun delivered_for :: "ConnectionId \<Rightarrow> Event list \<Rightarrow> PacketPtr list" where
  "delivered_for clientId [] = []"
| "delivered_for clientId (Delivered c packets # events) =
     (if c = clientId then packets else []) @ delivered_for clientId events"
| "delivered_for clientId (Produced c packets # events) = delivered_for clientId events"

text \<open>
  Between two states of a host with a record: the record has only grown, every outgoing
  queue holds what it held followed by what the engine produced for the client since, and
  what every incoming queue held is what the engine was given for the client since
  followed by what the queue still holds.
\<close>

definition accounted ::
  "('w \<times> Event list) WorldServerThread \<Rightarrow> ('w \<times> Event list) WorldServerThread \<Rightarrow> bool" where
  "accounted s s' =
     (\<exists>events. snd (m_worldServer s') = snd (m_worldServer s) @ events \<and>
        (\<forall>c. subscript (m_outgoingPacketQueue s') c =
               subscript (m_outgoingPacketQueue s) c @ produced_for c events) \<and>
        (\<forall>c. subscript (m_incomingPacketQueue s) c =
               delivered_for c events @ subscript (m_incomingPacketQueue s') c))"

text \<open>
  An update action that works on the engine only and leaves the engine's client table as
  it is; no update action at all is the other admissible case.
\<close>

definition engine_only :: "'w WorldServer \<Rightarrow> 'w WorldServerAction \<Rightarrow> bool" where
  "engine_only E action =
     (\<forall>s. \<exists>r w. action s = (r, s\<lparr>m_worldServer := w\<rparr>) \<and>
                 ws_clientIds E w = ws_clientIds E (m_worldServer s))"

definition hook_ok :: "'w WorldServer \<Rightarrow> 'w WorldServerAction option \<Rightarrow> bool" where
  "hook_ok E m_updateAction =
     (case m_updateAction of None \<Rightarrow> True | Some action \<Rightarrow> engine_only E action)"

text \<open>
  What a tick leaves alone, whatever the engine does: the registry is the same, no queue
  entry disappears, and every outgoing queue keeps what it held, in front.
\<close>

definition tick_frame :: "'w WorldServerThread \<Rightarrow> 'w WorldServerThread \<Rightarrow> bool" where
  "tick_frame s s' =
     (m_clients s' = m_clients s \<and>
      dom (m_incomingPacketQueue s) \<subseteq> dom (m_incomingPacketQueue s') \<and>
      dom (m_outgoingPacketQueue s) \<subseteq> dom (m_outgoingPacketQueue s') \<and>
      (\<forall>c. \<exists>ps. subscript (m_outgoingPacketQueue s') c = subscript (m_outgoingPacketQueue s) c @ ps))"

text \<open>
  What the host expects of an engine about a client it removed: once the engine's
  \<open>removeClient\<close> for the id has returned, the engine does not list the id, and no member
  but \<open>addClient\<close> for that very id lists it again.
\<close>

definition keeps_removed :: "'w WorldServer \<Rightarrow> ConnectionId \<Rightarrow> bool" where
  "keeps_removed E clientId =
     ((\<forall>w final w'. ws_removeClient E w clientId = (Returned final, w') \<longrightarrow>
          clientId \<notin> set (ws_clientIds E w')) \<and>
      (\<forall>w. clientId \<notin> set (ws_clientIds E w) \<longrightarrow>
          (\<forall>c ps. clientId \<notin> set (ws_clientIds E (snd (ws_handleIncomingPackets E w c ps)))) \<and>
          (\<forall>c. clientId \<notin> set (ws_clientIds E (snd (ws_removeClient E w c)))) \<and>
          (\<forall>c. clientId \<notin> set (ws_clientIds E (snd (ws_getOutgoingPackets E w c)))) \<and>
          (\<forall>f. clientId \<notin> set (ws_clientIds E (snd (ws_setFidelity E w f)))) \<and>
          clientId \<notin> set (ws_clientIds E (snd (ws_update E w))) \<and>
          (\<forall>c t l. c \<noteq> clientId \<longrightarrow> clientId \<notin> set (ws_clientIds E (snd (ws_addClient E w c t l))))))"

text \<open>
  Concrete settings of the run loop: thresholds \<open>-1\<close> and \<open>1\<close>, with and without a fixed
  level; a tick that overran its budget by one
  second, and a tick with a quarter of a second to spare.
\<close>

definition cfgAuto :: RunConfig where
  "cfgAuto = \<lparr>fidelityDecrementScore = - 1, fidelityIncrementScore = 1, lockedFidelity = None\<rparr>"

definition cfgLocked :: RunConfig where
  "cfgLocked = \<lparr>fidelityDecrementScore = - 1, fidelityIncrementScore = 1, lockedFidelity = Some High\<rparr>"

definition obsSlow :: TickObservation where
  "obsSlow = \<lparr>stopRequested = False, storageTimeUp = False, spareTime = - 1\<rparr>"

definition obsIdle :: TickObservation where
  "obsIdle = \<lparr>stopRequested = False, storageTimeUp = False, spareTime = 1 / 4\<rparr>"

text \<open>
  A client the engine does not list while both its queue entries exist; and, between the
  host before a tick and a later state, that the log has only grown and that the client is
  in that condition if the new part of the log reports a fault of its delivery.
\<close>

definition parked :: "'w WorldServer \<Rightarrow> ConnectionId \<Rightarrow> 'w WorldServerThread \<Rightarrow> bool" where
  "parked E clientId s =
     (clientId \<in> dom (m_incomingPacketQueue s) \<and>
      clientId \<in> dom (m_outgoingPacketQueue s) \<and>
      clientId \<notin> set (ws_clientIds E (m_worldServer s)))"

definition isolation_logged ::
  "'w WorldServer \<Rightarrow> ConnectionId \<Rightarrow> 'w WorldServerThread \<Rightarrow> 'w WorldServerThread \<Rightarrow> bool" where
  "isolation_logged E clientId s0 s =
     (\<exists>l. logger s = logger s0 @ l \<and>
          ((\<exists>e. ExceptionCaughtHandling clientId e \<in> set l) \<longrightarrow> parked E clientId s))"

definition entries_logged ::
  "ConnectionId \<Rightarrow> 'w WorldServerThread \<Rightarrow> 'w WorldServerThread \<Rightarrow> bool" where
  "entries_logged clientId s0 s =
     (\<exists>l. logger s = logger s0 @ l \<and>
          ((\<exists>e. ExceptionCaughtHandling clientId e \<in> set l) \<longrightarrow>
             clientId \<in> dom (m_incomingPacketQueue s) \<and> clientId \<in> dom (m_outgoingPacketQueue s)))"

section \<open>The list of ids under removal\<close>

text \<open>
  Erasing keeps the number of slots, so the first loop of a tick, which reads the slots
  below the original size, always reads a slot of the list; and the elements left after
  \<open>list_remove\<close> are the elements before it without the removed id, in their order.
\<close>

lemma erase_at_shape:
  assumes "i < snd v" and "snd v \<le> length (fst v)"
  shows "length (fst (erase_at i v)) = length (fst v)"
    and "snd (erase_at i v) = snd v - 1"
    and "elements (erase_at i v) = take i (elements v) @ drop (Suc i) (elements v)"
proof -
  show "length (fst (erase_at i v)) = length (fst v)"
    using assms by (simp add: erase_at_def)
  show "snd (erase_at i v) = snd v - 1"
    by (simp add: erase_at_def)
  have front: "take k (xs @ ys) = xs" if "length xs = k" for k and xs ys :: "'a list"
    using that by simp
  have "length (take i (fst v) @ drop (Suc i) (take (snd v) (fst v))) = snd v - 1"
    using assms by simp
  then have "take (snd v - 1) ((take i (fst v) @ drop (Suc i) (take (snd v) (fst v))) @ drop (snd v - 1) (fst v))
      = take i (fst v) @ drop (Suc i) (take (snd v) (fst v))"
    by (rule front)
  moreover have "take i (take (snd v) (fst v)) = take i (fst v)"
    using assms by (simp add: min_def)
  ultimately show "elements (erase_at i v) = take i (elements v) @ drop (Suc i) (elements v)"
    by (simp add: erase_at_def elements_def)
qed

lemma remove_from_shape:
  "snd v \<le> length (fst v) \<Longrightarrow> i \<le> snd v \<Longrightarrow>
   length (fst (remove_from i e v)) = length (fst v) \<and>
   snd (remove_from i e v) \<le> snd v \<and>
   elements (remove_from i e v) = take i (elements v) @ removeAll e (drop i (elements v))"
proof (induction i e v rule: remove_from.induct)
  case (1 i e v)
  show ?case
  proof (cases "i < snd v")
    case False
    then have "remove_from i e v = v"
      by (simp add: remove_from.simps [of i e v])
    moreover from False "1.prems" have "i = snd v" by simp
    ultimately show ?thesis by (simp add: elements_def)
  next
    case True
    then have len: "i < length (elements v)"
      using "1.prems" by (simp add: elements_def)
    have nth: "elements v ! i = fst v ! i"
      using True by (simp add: elements_def)
    show ?thesis
    proof (cases "fst v ! i = e")
      case hit: True
      note sh = erase_at_shape [OF True "1.prems"(1)]
      have a: "snd (erase_at i v) \<le> length (fst (erase_at i v))" and b: "i \<le> snd (erase_at i v)"
        using sh True "1.prems" by auto
      have unfold: "remove_from i e v = remove_from i e (erase_at i v)"
        using True hit by (simp add: remove_from.simps [of i e v])
      have "drop i (elements v) = e # drop (Suc i) (elements v)"
        using Cons_nth_drop_Suc [OF len] nth hit by simp
      with "1.IH"(1) [OF True hit a b] sh True len show ?thesis
        unfolding unfold by auto
    next
      case miss: False
      have unfold: "remove_from i e v = remove_from (Suc i) e v"
        using True miss by (simp add: remove_from.simps [of i e v])
      have "drop i (elements v) = fst v ! i # drop (Suc i) (elements v)"
        using Cons_nth_drop_Suc [OF len] nth by simp
      moreover have "take (Suc i) (elements v) = take i (elements v) @ [fst v ! i]"
        using take_Suc_conv_app_nth [OF len] nth by simp
      ultimately show ?thesis
        using "1.IH"(2) [OF True miss "1.prems"(1)] True miss
        unfolding unfold by simp
    qed
  qed
qed

lemma list_remove_shape:
  assumes "snd v \<le> length (fst v)"
  shows "length (fst (list_remove e v)) = length (fst v)"
    and "snd (list_remove e v) \<le> snd v"
    and "elements (list_remove e v) = removeAll e (elements v)"
  using remove_from_shape [OF assms, of 0 e] by (simp_all add: list_remove_def)

section \<open>What a tick leaves alone\<close>

lemma tick_frame_refl: "tick_frame s s"
  by (simp add: tick_frame_def)

lemma tick_frame_trans: "tick_frame s s' \<Longrightarrow> tick_frame s' s'' \<Longrightarrow> tick_frame s s''"
  unfolding tick_frame_def
  apply (intro conjI)
     apply simp
    apply blast
   apply blast
  apply (metis append.assoc)
  done

lemma tick_frame_engine_call: "engine_call f s = (r, s') \<Longrightarrow> tick_frame s s'"
  by (auto simp: engine_call_def tick_frame_def split: prod.splits)

lemma subscript_appendAll:
  "subscript (appendAll q c ps) c' = (if c' = c then subscript q c @ ps else subscript q c')"
  by (simp add: appendAll_def subscript_def)

lemma dom_appendAll: "dom (appendAll q c ps) = insert c (dom q)"
  by (simp add: appendAll_def)

lemma subscript_touch: "subscript (touch q c) c' = subscript q c'"
  by (simp add: touch_def subscript_def)

lemma dom_touch: "dom (touch q c) = insert c (dom q)"
  by (simp add: touch_def)

lemma tick_frame_append:
  "tick_frame s (s\<lparr>m_outgoingPacketQueue := appendAll (m_outgoingPacketQueue s) c ps\<rparr>)"
  by (auto simp: tick_frame_def subscript_appendAll dom_appendAll)

lemma tick_frame_touch:
  "tick_frame s (s\<lparr>m_outgoingPacketQueue := touch (m_outgoingPacketQueue s) c\<rparr>)"
  by (auto simp: tick_frame_def subscript_touch dom_touch)

lemma tick_frame_take:
  "tick_frame s (s\<lparr>m_incomingPacketQueue := snd (take_queue (m_incomingPacketQueue s) c)\<rparr>)"
  by (auto simp: tick_frame_def take_queue_def)

lemma tick_frame_log: "tick_frame s (s\<lparr>logger := l\<rparr>)"
  by (auto simp: tick_frame_def)

text \<open>
  The body of the first loop, cut at its two engine calls: the state before the delivery,
  and in the handler the state before the engine's removal.
\<close>

lemma deliverOne_cases:
  assumes "deliverOne E c ids s = (r, ids', s')"
  obtains
    (delivered) u where
      "engine_call (\<lambda>w. ws_handleIncomingPackets E w c (subscript (m_incomingPacketQueue s) c))
         (s\<lparr>m_incomingPacketQueue := (m_incomingPacketQueue s)(c \<mapsto> [])\<rparr>) = (Returned u, s')"
      "r = Returned ()" "ids' = ids"
  | (removal_raised) e s2 e' where
      "engine_call (\<lambda>w. ws_handleIncomingPackets E w c (subscript (m_incomingPacketQueue s) c))
         (s\<lparr>m_incomingPacketQueue := (m_incomingPacketQueue s)(c \<mapsto> [])\<rparr>) = (Raised e, s2)"
      "engine_call (\<lambda>w. ws_removeClient E w c)
         (s2\<lparr>logger := logger s2 @ [ExceptionCaughtHandling c e],
             m_outgoingPacketQueue := touch (m_outgoingPacketQueue s2) c\<rparr>) = (Raised e', s')"
      "r = Raised e'" "ids' = ids"
  | (isolated) e s2 final s5 where
      "engine_call (\<lambda>w. ws_handleIncomingPackets E w c (subscript (m_incomingPacketQueue s) c))
         (s\<lparr>m_incomingPacketQueue := (m_incomingPacketQueue s)(c \<mapsto> [])\<rparr>) = (Raised e, s2)"
      "engine_call (\<lambda>w. ws_removeClient E w c)
         (s2\<lparr>logger := logger s2 @ [ExceptionCaughtHandling c e],
             m_outgoingPacketQueue := touch (m_outgoingPacketQueue s2) c\<rparr>) = (Returned final, s5)"
      "s' = s5\<lparr>m_outgoingPacketQueue := appendAll (m_outgoingPacketQueue s5) c final\<rparr>"
      "r = Returned ()" "ids' = list_remove c ids"
  using assms
  by (auto simp: deliverOne_def take_queue_def Let_def split: prod.splits outcome.splits)

lemma tick_frame_take':
  "tick_frame s (s\<lparr>m_incomingPacketQueue := (m_incomingPacketQueue s)(c \<mapsto> [])\<rparr>)"
  by (auto simp: tick_frame_def)

lemma tick_frame_handler:
  "tick_frame s (s\<lparr>logger := l, m_outgoingPacketQueue := touch (m_outgoingPacketQueue s) c\<rparr>)"
  by (auto simp: tick_frame_def subscript_touch dom_touch)

lemma tick_frame_deliverOne:
  assumes "deliverOne E c ids s = (r, ids', s')"
  shows "tick_frame s s'"
  using assms
proof (cases rule: deliverOne_cases)
  case (delivered u)
  from tick_frame_take' tick_frame_engine_call [OF delivered(1)] show ?thesis
    by (rule tick_frame_trans)
next
  case (removal_raised e s2 e')
  from tick_frame_take' tick_frame_engine_call [OF removal_raised(1)]
  have "tick_frame s s2" by (rule tick_frame_trans)
  with tick_frame_handler tick_frame_engine_call [OF removal_raised(2)] show ?thesis
    by (blast intro: tick_frame_trans)
next
  case (isolated e s2 final s5)
  from tick_frame_take' tick_frame_engine_call [OF isolated(1)]
  have "tick_frame s s2" by (rule tick_frame_trans)
  with tick_frame_handler tick_frame_engine_call [OF isolated(2)]
  have "tick_frame s s5" by (blast intro: tick_frame_trans)
  with tick_frame_append [of s5 c final] isolated(3) show ?thesis
    by (auto intro: tick_frame_trans)
qed

text \<open>
  An induction rule for the first loop, from its own recursion: a property of the host
  that holds at the start and that every pass of the loop body carries on holds at the end.
\<close>

lemma deliverIncoming_rule:
  assumes run: "deliverIncoming E n i ids s = (r, ids', s')"
    and start: "P s"
    and step: "\<And>c ids1 s1 r2 ids2 s2. P s1 \<Longrightarrow> deliverOne E c ids1 s1 = (r2, ids2, s2) \<Longrightarrow>
                 r2 = Returned () \<or> r2 = r \<Longrightarrow> P s2"
  shows "P s'"
  using run start step
proof (induction E n i ids s rule: deliverIncoming.induct)
  case (1 E n i ids s)
  note step' = "1.prems"(3)
  show ?case
  proof (cases "i < n")
    case False
    with "1.prems"(1,2) show ?thesis by (simp add: deliverIncoming.simps [of E n i])
  next
    case True
    obtain r1 ids1 s1 where one: "deliverOne E (fst ids ! i) ids s = (r1, ids1, s1)"
      by (cases "deliverOne E (fst ids ! i) ids s") auto
    show ?thesis
    proof (cases r1)
      case (Returned u)
      have p1: "P s1" using "1.prems"(2) one by (rule step') (simp add: Returned)
      from Returned "1.prems"(1) True one
      have rest: "deliverIncoming E n (Suc i) ids1 s1 = (r, ids', s')"
        by (simp add: deliverIncoming.simps [of E n i])
      show ?thesis
        by (rule "1.IH" [OF True one [symmetric, unfolded Returned] refl refl rest p1]) (rule step')
    next
      case (Raised e)
      with "1.prems"(1) True one have last: "s' = s1" "r = r1"
        by (simp_all add: deliverIncoming.simps [of E n i])
      have "P s1" using "1.prems"(2) one by (rule step') (simp add: last)
      with last show ?thesis by simp
    qed
  qed
qed

lemma deliverIncoming_slots:
  assumes "deliverIncoming E n i ids s = (r, ids', s')" and "snd ids \<le> length (fst ids)"
  shows "length (fst ids') = length (fst ids) \<and> snd ids' \<le> snd ids \<and>
         set (elements ids') \<subseteq> set (elements ids)"
  using assms
proof (induction E n i ids s rule: deliverIncoming.induct)
  case (1 E n i ids s)
  show ?case
  proof (cases "i < n")
    case False
    with "1.prems"(1) show ?thesis by (simp add: deliverIncoming.simps [of E n i])
  next
    case True
    obtain r1 ids1 s1 where one: "deliverOne E (fst ids ! i) ids s = (r1, ids1, s1)"
      by (cases "deliverOne E (fst ids ! i) ids s") auto
    have "ids1 = ids \<or> ids1 = list_remove (fst ids ! i) ids"
      using one by (cases rule: deliverOne_cases) simp_all
    with list_remove_shape [OF "1.prems"(2), of "fst ids ! i"]
    have shape: "length (fst ids1) = length (fst ids) \<and> snd ids1 \<le> snd ids \<and>
                 set (elements ids1) \<subseteq> set (elements ids)"
      by auto
    show ?thesis
    proof (cases r1)
      case (Returned u)
      with "1.prems"(1) True one have rest: "deliverIncoming E n (Suc i) ids1 s1 = (r, ids', s')"
        by (simp add: deliverIncoming.simps [of E n i])
      from shape "1.prems"(2) have "snd ids1 \<le> length (fst ids1)" by simp
      from "1.IH" [OF True one [symmetric, unfolded Returned] refl refl rest this] shape
      show ?thesis by auto
    next
      case (Raised e)
      with "1.prems"(1) True one have "ids' = ids1"
        by (simp add: deliverIncoming.simps [of E n i])
      with shape show ?thesis by simp
    qed
  qed
qed

lemma tick_frame_deliverIncoming:
  assumes "deliverIncoming E n i ids s = (r, ids', s')"
  shows "tick_frame s s'"
  using assms tick_frame_refl
  by (rule deliverIncoming_rule) (blast intro: tick_frame_trans tick_frame_deliverOne)

lemma collectOutgoing_rule:
  assumes run: "collectOutgoing E cs s = (r, s')"
    and start: "P s"
    and call: "\<And>c s1 r2 s2. P s1 \<Longrightarrow> engine_call (\<lambda>w. ws_getOutgoingPackets E w c) s1 = (r2, s2) \<Longrightarrow> P s2"
    and append: "\<And>c ps s1. P s1 \<Longrightarrow> P (s1\<lparr>m_outgoingPacketQueue := appendAll (m_outgoingPacketQueue s1) c ps\<rparr>)"
  shows "P s'"
  using run start
proof (induction cs arbitrary: s)
  case Nil
  then show ?case by simp
next
  case (Cons c cs)
  obtain r1 s1 where c1: "engine_call (\<lambda>w. ws_getOutgoingPackets E w c) s = (r1, s1)"
    by (cases "engine_call (\<lambda>w. ws_getOutgoingPackets E w c) s")
  have p1: "P s1" using Cons.prems(2) c1 by (rule call)
  show ?case
  proof (cases r1)
    case (Raised e)
    with Cons.prems(1) c1 have "s' = s1" by simp
    with p1 show ?thesis by simp
  next
    case (Returned ps)
    with Cons.prems(1) c1
    have "collectOutgoing E cs (s1\<lparr>m_outgoingPacketQueue := appendAll (m_outgoingPacketQueue s1) c ps\<rparr>) = (r, s')"
      by simp
    from Cons.IH [OF this append [OF p1]] show ?thesis .
  qed
qed

lemma tick_frame_collectOutgoing:
  assumes "collectOutgoing E cs s = (r, s')"
  shows "tick_frame s s'"
  using assms tick_frame_refl
  by (rule collectOutgoing_rule)
     (blast intro: tick_frame_trans tick_frame_engine_call tick_frame_append)+

lemma hook_effect:
  assumes "hook_ok E (Some action)" and "action s = (r, s')"
  obtains w where "s' = s\<lparr>m_worldServer := w\<rparr>"
    and "ws_clientIds E w = ws_clientIds E (m_worldServer s)"
proof -
  from assms(1) obtain r' w where "action s = (r', s\<lparr>m_worldServer := w\<rparr>)"
    and "ws_clientIds E w = ws_clientIds E (m_worldServer s)"
    unfolding hook_ok_def engine_only_def by simp blast
  with assms(2) have "s' = s\<lparr>m_worldServer := w\<rparr>"
    and "ws_clientIds E w = ws_clientIds E (m_worldServer s)" by simp_all
  then show ?thesis by (rule that)
qed

text \<open>
  An induction rule for the whole tick: a property of the host that every engine call,
  every queue update of the two loops and the update action carry on.
\<close>

lemma update_rule_loops:
  assumes run: "update E m_updateAction fidelity s = (r, s')"
    and start: "P s"
    and one: "\<And>c ids1 s1 r2 ids2 s2. P s1 \<Longrightarrow> deliverOne E c ids1 s1 = (r2, ids2, s2) \<Longrightarrow>
                r2 = Returned () \<or> r2 = r \<Longrightarrow> P s2"
    and setf: "\<And>s1 r2 s2. P s1 \<Longrightarrow> engine_call (\<lambda>w. ws_setFidelity E w fidelity) s1 = (r2, s2) \<Longrightarrow> P s2"
    and upd: "\<And>s1 r2 s2. P s1 \<Longrightarrow> engine_call (ws_update E) s1 = (r2, s2) \<Longrightarrow> P s2"
    and collect: "\<And>cs s1 r2 s2. P s1 \<Longrightarrow> collectOutgoing E cs s1 = (r2, s2) \<Longrightarrow> P s2"
    and hook: "\<And>action s1 r2 s2. P s1 \<Longrightarrow> m_updateAction = Some action \<Longrightarrow> action s1 = (r2, s2) \<Longrightarrow> P s2"
  shows "P s'"
proof -
  let ?ids = "ws_clientIds E (m_worldServer s)"
  obtain r1 ids1 s1 where d: "deliverIncoming E (length ?ids) 0 (?ids, length ?ids) s = (r1, ids1, s1)"
    using prod_cases3 by blast
  obtain r2 s2 where sf: "engine_call (\<lambda>w. ws_setFidelity E w fidelity) s1 = (r2, s2)"
    by (cases "engine_call (\<lambda>w. ws_setFidelity E w fidelity) s1")
  obtain r3 s3 where up: "updateUnlessPaused E s2 = (r3, s3)"
    by (cases "updateUnlessPaused E s2")
  obtain r4 s4 where co: "collectOutgoing E (elements ids1) s3 = (r4, s4)"
    by (cases "collectOutgoing E (elements ids1) s3")
  have u: "update E m_updateAction fidelity s =
      (case r1 of Raised e \<Rightarrow> (Raised e, s1)
       | Returned u \<Rightarrow>
         (case r2 of Raised e \<Rightarrow> (Raised e, s2)
          | Returned u \<Rightarrow>
            (case r3 of Raised e \<Rightarrow> (Raised e, s3)
             | Returned u \<Rightarrow>
               (case r4 of Raised e \<Rightarrow> (Raised e, s4)
                | Returned u \<Rightarrow>
                  (case m_updateAction of None \<Rightarrow> (Returned (), s4) | Some action \<Rightarrow> action s4)))))"
    unfolding update_def Let_def d
    by (simp add: sf up co split: outcome.split)
  have rr: "r1 = Returned () \<or> r1 = r"
    using u run by (cases r1) simp_all
  have p1: "P s1"
    using d start
  proof (rule deliverIncoming_rule)
    fix c ids1 s1 r2 ids2 s2
    assume "P s1" and "deliverOne E c ids1 s1 = (r2, ids2, s2)" and "r2 = Returned () \<or> r2 = r1"
    with rr show "P s2" by (auto intro: one)
  qed
  have p2: "P s2" using p1 sf by (rule setf)
  have p3: "P s3"
  proof (cases "m_pause s2 = None \<or> m_pause s2 = Some False")
    case True
    with up have "engine_call (ws_update E) s2 = (r3, s3)" by (simp add: updateUnlessPaused_def)
    with p2 show ?thesis by (rule upd)
  next
    case False
    with up p2 show ?thesis by (simp add: updateUnlessPaused_def)
  qed
  have p4: "P s4" using p3 co by (rule collect)
  show ?thesis
  proof (cases r1)
    case Raised
    with u run p1 show ?thesis by simp
  next
    case r1: Returned
    show ?thesis
    proof (cases r2)
      case Raised
      with u run r1 p2 show ?thesis by simp
    next
      case r2: Returned
      show ?thesis
      proof (cases r3)
        case Raised
        with u run r1 r2 p3 show ?thesis by simp
      next
        case r3: Returned
        show ?thesis
        proof (cases r4)
          case Raised
          with u run r1 r2 r3 p4 show ?thesis by simp
        next
          case r4: Returned
          show ?thesis
          proof (cases m_updateAction)
            case None
            with u run r1 r2 r3 r4 p4 show ?thesis by simp
          next
            case (Some action)
            with u run r1 r2 r3 r4 have "action s4 = (r, s')" by simp
            with p4 Some show ?thesis by (rule hook)
          qed
        qed
      qed
    qed
  qed
qed

lemma update_rule:
  assumes run: "update E m_updateAction fidelity s = (r, s')"
    and start: "P s"
    and one: "\<And>c ids1 s1 r2 ids2 s2. P s1 \<Longrightarrow> deliverOne E c ids1 s1 = (r2, ids2, s2) \<Longrightarrow>
                r2 = Returned () \<or> r2 = r \<Longrightarrow> P s2"
    and setf: "\<And>s1 r2 s2. P s1 \<Longrightarrow> engine_call (\<lambda>w. ws_setFidelity E w fidelity) s1 = (r2, s2) \<Longrightarrow> P s2"
    and upd: "\<And>s1 r2 s2. P s1 \<Longrightarrow> engine_call (ws_update E) s1 = (r2, s2) \<Longrightarrow> P s2"
    and out: "\<And>c s1 r2 s2. P s1 \<Longrightarrow> engine_call (\<lambda>w. ws_getOutgoingPackets E w c) s1 = (r2, s2) \<Longrightarrow> P s2"
    and append: "\<And>c ps s1. P s1 \<Longrightarrow> P (s1\<lparr>m_outgoingPacketQueue := appendAll (m_outgoingPacketQueue s1) c ps\<rparr>)"
    and hook: "\<And>action s1 r2 s2. P s1 \<Longrightarrow> m_updateAction = Some action \<Longrightarrow> action s1 = (r2, s2) \<Longrightarrow> P s2"
  shows "P s'"
  using run start
proof (rule update_rule_loops)
  fix c ids1 s1 r2 ids2 s2
  assume "P s1" and "deliverOne E c ids1 s1 = (r2, ids2, s2)" and "r2 = Returned () \<or> r2 = r"
  then show "P s2" by (rule one)
next
  fix s1 r2 s2
  assume "P s1" and "engine_call (\<lambda>w. ws_setFidelity E w fidelity) s1 = (r2, s2)"
  then show "P s2" by (rule setf)
next
  fix s1 r2 s2
  assume "P s1" and "engine_call (ws_update E) s1 = (r2, s2)"
  then show "P s2" by (rule upd)
next
  fix cs s1 r2 s2
  assume p: "P s1" and c: "collectOutgoing E cs s1 = (r2, s2)"
  from c p out append show "P s2"
    by (rule collectOutgoing_rule)
next
  fix action s1 r2 s2
  assume "P s1" and "m_updateAction = Some action" and "action s1 = (r2, s2)"
  then show "P s2" by (rule hook)
qed

lemma tick_frame_update:
  assumes "hook_ok E m_updateAction" and "update E m_updateAction fidelity s = (r, s')"
  shows "tick_frame s s'"
  using assms(2) tick_frame_refl
proof (rule update_rule)
  fix action s1 r2 s2
  assume f: "tick_frame s s1" and "m_updateAction = Some action" and "action s1 = (r2, s2)"
  with assms(1) obtain w where "s2 = s1\<lparr>m_worldServer := w\<rparr>"
    by (auto elim: hook_effect)
  then have "tick_frame s1 s2" by (simp add: tick_frame_def)
  with f show "tick_frame s s2" by (rule tick_frame_trans)
qed (blast intro: tick_frame_trans tick_frame_deliverOne tick_frame_engine_call tick_frame_append)+

text \<open>What a call of an engine member changes of the host: its engine, and nothing else.\<close>

lemma engine_call_state:
  assumes "engine_call f s = (r, s')"
  shows "s' = s\<lparr>m_worldServer := snd (f (m_worldServer s))\<rparr>" and "f (m_worldServer s) = (r, m_worldServer s')"
  using assms by (auto simp: engine_call_def split: prod.splits)

lemma engine_call_engine:
  "engine_call f s = (r, s') \<Longrightarrow> m_worldServer s' = snd (f (m_worldServer s))"
  by (auto simp: engine_call_def split: prod.splits)

lemma engine_call_rest:
  assumes "engine_call f s = (r, s')"
  shows "logger s' = logger s" and "m_incomingPacketQueue s' = m_incomingPacketQueue s"
    and "m_outgoingPacketQueue s' = m_outgoingPacketQueue s" and "m_clients s' = m_clients s"
  using engine_call_state(1) [OF assms] by simp_all

text \<open>The equations that run a tick, and the concrete engine, on concrete hosts.\<close>

lemmas tick_eval =
  deliverIncoming.simps remove_from.simps update_def updateUnlessPaused_def deliverOne_def take_queue_def subscript_def touch_def appendAll_def
  engine_call_def list_remove_def erase_at_def elements_def Let_def

lemmas echo_eval = echoEngine_def echoWorld_def guarded_def

section \<open>Removal of a client\<close>

text \<open>
  C4. For every id: \<open>removeClient\<close> of an id that is not in the registry returns the empty
  list and leaves the host as it was; \<open>removeClient\<close> of a registered id returns, and
  afterwards the id is neither in the registry nor a key of the incoming or the outgoing
  queue map. This holds for every engine, so also when any of the engine calls made during
  the removal raises a fault.
\<close>

theorem removeClient_unregisters:
  "(clientId \<notin> m_clients s \<longrightarrow> removeClient E clientId s = (Returned [], s)) \<and>
   (clientId \<in> m_clients s \<longrightarrow>
      (\<exists>packets s'. removeClient E clientId s = (Returned packets, s') \<and>
         clientId \<notin> m_clients s' \<and>
         clientId \<notin> dom (m_incomingPacketQueue s') \<and>
         clientId \<notin> dom (m_outgoingPacketQueue s')))"
  by (auto simp: removeClient_def unregister_def split: prod.splits outcome.splits)

theorem removeClient_unregisters_witness:
  "(7 \<notin> m_clients hostA \<and> removeClient echoEngine 7 hostA = (Returned [], hostA)) \<and>
   (1 \<in> m_clients hostA \<and>
      (\<exists>packets s'. removeClient echoEngine 1 hostA = (Returned packets, s') \<and>
         1 \<notin> m_clients s' \<and>
         1 \<notin> dom (m_incomingPacketQueue s') \<and>
         1 \<notin> dom (m_outgoingPacketQueue s')))"
proof -
  have unknown: "7 \<notin> m_clients hostA" and known: "1 \<in> m_clients hostA"
    by (simp_all add: hostA_def)
  from unknown known
    removeClient_unregisters [of 7 hostA echoEngine]
    removeClient_unregisters [of 1 hostA echoEngine]
  show ?thesis by blast
qed

text \<open>
  C10. If \<open>removeClient\<close> is called for a registered id the engine still has, and the
  delivery of the drained incoming packets raises a fault, then \<open>removeClient\<close> returns the
  empty list, and the entry of the id is erased from both queue maps without its outgoing
  queue ever being read: what was pending there is neither returned nor kept. The fault is
  logged and the sticky flag is set.
\<close>

theorem removeClient_delivery_fault:
  assumes "clientId \<in> m_clients s"
    and "ws_hasClient E (m_worldServer s) clientId"
    and "ws_handleIncomingPackets E (m_worldServer s) clientId
           (subscript (m_incomingPacketQueue s) clientId) = (Raised e, w')"
  shows "removeClient E clientId s =
           (Returned [],
            s\<lparr>m_worldServer := w',
              m_clients := m_clients s - {clientId},
              m_incomingPacketQueue := (m_incomingPacketQueue s)(clientId := None),
              m_outgoingPacketQueue := (m_outgoingPacketQueue s)(clientId := None),
              m_errorOccurred := True,
              logger := logger s @ [ExceptionCaught e]\<rparr>)"
  using assms
  by (simp add: removeClient_def removeClient_try_def unregister_def take_queue_def
      engine_call_def Let_def)

theorem removeClient_delivery_fault_witness:
  "subscript (m_outgoingPacketQueue hostA) 1 = [91] \<and>
   fst (removeClient echoEngine 1 hostA) = Returned [] \<and>
   m_outgoingPacketQueue (snd (removeClient echoEngine 1 hostA)) 1 = None \<and>
   m_incomingPacketQueue (snd (removeClient echoEngine 1 hostA)) 1 = None \<and>
   m_errorOccurred (snd (removeClient echoEngine 1 hostA))"
proof -
  have a: "1 \<in> m_clients hostA"
    by (simp add: hostA_def)
  have b: "ws_hasClient echoEngine (m_worldServer hostA) 1"
    by (simp add: hostA_def echoEngine_def echoWorld_def)
  have c: "ws_handleIncomingPackets echoEngine (m_worldServer hostA) 1
             (subscript (m_incomingPacketQueue hostA) 1) = (Raised ''bad packet'', m_worldServer hostA)"
    by (simp add: hostA_def echoEngine_def echoWorld_def guarded_def subscript_def)
  have d: "subscript (m_outgoingPacketQueue hostA) 1 = [91]"
    by (simp add: hostA_def subscript_def)
  show ?thesis
    using d removeClient_delivery_fault [OF a b c] by simp
qed
section \<open>Faults at the boundary of the public operations\<close>

lemma spawnTargetValid_catches:
  "(\<exists>v s'. spawnTargetValid E spawnTarget s = (Returned v, s')) \<and>
   (\<forall>e w. ws_spawnTargetValid E (m_worldServer s) spawnTarget = (Raised e, w) \<longrightarrow>
      spawnTargetValid E spawnTarget s =
        (Returned False, s\<lparr>m_worldServer := w, logger := logger s @ [ExceptionCaught e], m_errorOccurred := True\<rparr>))"
  by (auto simp: spawnTargetValid_def try_catch_def caught_def engine_call_def
      split: prod.splits outcome.splits)

lemma addClient_catches:
  "(\<exists>v s'. addClient E clientId spawnTarget isLocal s = (Returned v, s')) \<and>
   (\<forall>e w. ws_addClient E (m_worldServer s) clientId spawnTarget isLocal = (Raised e, w) \<longrightarrow>
      addClient E clientId spawnTarget isLocal s =
        (Returned False, s\<lparr>m_worldServer := w, logger := logger s @ [ExceptionCaught e], m_errorOccurred := True\<rparr>))"
  by (auto simp: addClient_def try_catch_def caught_def engine_call_def
      split: prod.splits outcome.splits)

lemma removeClient_catches:
  "(\<exists>v s'. removeClient E clientId s = (Returned v, s')) \<and>
   (\<forall>e packets s1. clientId \<in> m_clients s \<and> removeClient_try E clientId s = (Raised e, packets, s1) \<longrightarrow>
      removeClient E clientId s =
        (Returned packets,
         unregister clientId (s1\<lparr>logger := logger s1 @ [ExceptionCaught e], m_errorOccurred := True\<rparr>)))"
  by (auto simp: removeClient_def split: prod.splits outcome.splits)

lemma playerRevivePosition_catches:
  "(\<exists>v s'. playerRevivePosition E clientId s = (Returned v, s')) \<and>
   (\<forall>e w. ws_clientPlayer E (m_worldServer s) clientId = (Raised e, w) \<longrightarrow>
      playerRevivePosition E clientId s =
        (Returned None, s\<lparr>m_worldServer := w, logger := logger s @ [ExceptionCaught e], m_errorOccurred := True\<rparr>))"
  by (auto simp: playerRevivePosition_def try_catch_def caught_def engine_call_def
      split: prod.splits outcome.splits option.splits)

lemma pullNewPlanetType_catches:
  "(\<exists>v s'. pullNewPlanetType E s = (Returned v, s')) \<and>
   (\<forall>e w. ws_pullNewPlanetType E (m_worldServer s) = (Raised e, w) \<longrightarrow>
      pullNewPlanetType E s =
        (Returned None, s\<lparr>m_worldServer := w, logger := logger s @ [ExceptionCaught e], m_errorOccurred := True\<rparr>))"
  by (auto simp: pullNewPlanetType_def try_catch_def caught_def engine_call_def
      split: prod.splits outcome.splits)

lemma readChunks_catches:
  "(\<exists>v s'. readChunks E s = (Returned v, s')) \<and>
   (\<forall>e w. ws_readChunks E (m_worldServer s) = (Raised e, w) \<longrightarrow>
      readChunks E s =
        (Returned [], s\<lparr>m_worldServer := w, logger := logger s @ [ExceptionCaught e], m_errorOccurred := True\<rparr>))"
  by (auto simp: readChunks_def try_catch_def caught_def engine_call_def
      split: prod.splits outcome.splits)

lemma run_catches:
  "(\<exists>v s'. run E h config observations s = (Returned v, s')) \<and>
   (\<forall>e. config = Raised e \<longrightarrow>
      run E h config observations s =
        (Returned Exited, s\<lparr>logger := logger s @ [ExceptionCaught e], m_errorOccurred := True\<rparr>)) \<and>
   (\<forall>cfg e vars s1. config = Returned cfg \<and> run_loop E h cfg observations (initialVars, s) = (Raised e, vars, s1) \<longrightarrow>
      run E h config observations s =
        (Returned Exited, s1\<lparr>logger := logger s1 @ [ExceptionCaught e], m_errorOccurred := True\<rparr>))"
  by (auto simp: run_def try_catch_def caught_def split: prod.splits outcome.splits)

text \<open>
  The loop is run along a finite list of observations; once \<open>stop\<close> has been requested it
  has left the loop, so \<open>run\<close> has returned.
\<close>

lemma run_loop_leaves:
  "stopRequested obs \<Longrightarrow> fst (run_loop E h cfg (pre @ obs # post) st) \<noteq> Returned StillRunning"
proof (induction pre arbitrary: st)
  case Nil
  then show ?case by (cases st) (simp add: Let_def)
next
  case (Cons ob pre)
  then show ?case
    by (cases st) (auto simp: Let_def split: prod.splits outcome.splits)
qed

lemma run_exits_on_stop:
  assumes "obs \<in> set observations" and "stopRequested obs"
  shows "fst (run E h config observations s) = Returned Exited"
proof (cases config)
  case (Raised e)
  then show ?thesis by (simp add: run_def try_catch_def caught_def)
next
  case (Returned cfg)
  from assms(1) obtain pre post where split: "observations = pre @ obs # post"
    by (auto simp: in_set_conv_decomp)
  obtain r vars s' where loop: "run_loop E h cfg observations (initialVars, s) = (r, vars, s')"
    using prod_cases3 by blast
  from run_loop_leaves [OF assms(2), of E h cfg pre post "(initialVars, s)"] loop split
  have "r \<noteq> Returned StillRunning" by simp
  then have "(\<exists>e. r = Raised e) \<or> r = Returned Exited"
    by (cases r) (auto intro: LoopEnd.exhaust)
  with Returned loop show ?thesis
    by (auto simp: run_def try_catch_def caught_def)
qed

text \<open>
  C1, as the code has it. \<open>spawnTargetValid\<close>, \<open>addClient\<close>, \<open>removeClient\<close>,
  \<open>playerRevivePosition\<close>, \<open>pullNewPlanetType\<close>, \<open>readChunks\<close> and \<open>run\<close> never raise, for
  every engine and every input (\<open>run\<close> along every list of observations), and a fault
  raised inside them is turned into the safe value, a log entry and the sticky flag. \<open>executeAction\<close> has no handler: its outcome is the
  outcome of the action, and an empty action raises.
\<close>

theorem public_operations_catch:
  "((\<exists>v s'. spawnTargetValid E spawnTarget s = (Returned v, s')) \<and>
    (\<forall>e w. ws_spawnTargetValid E (m_worldServer s) spawnTarget = (Raised e, w) \<longrightarrow>
       spawnTargetValid E spawnTarget s =
         (Returned False, s\<lparr>m_worldServer := w, logger := logger s @ [ExceptionCaught e], m_errorOccurred := True\<rparr>))) \<and>
   ((\<exists>v s'. addClient E clientId spawnTarget isLocal s = (Returned v, s')) \<and>
    (\<forall>e w. ws_addClient E (m_worldServer s) clientId spawnTarget isLocal = (Raised e, w) \<longrightarrow>
       addClient E clientId spawnTarget isLocal s =
         (Returned False, s\<lparr>m_worldServer := w, logger := logger s @ [ExceptionCaught e], m_errorOccurred := True\<rparr>))) \<and>
   ((\<exists>v s'. removeClient E clientId s = (Returned v, s')) \<and>
    (\<forall>e packets s1. clientId \<in> m_clients s \<and> removeClient_try E clientId s = (Raised e, packets, s1) \<longrightarrow>
       removeClient E clientId s =
         (Returned packets,
          unregister clientId (s1\<lparr>logger := logger s1 @ [ExceptionCaught e], m_errorOccurred := True\<rparr>)))) \<and>
   ((\<exists>v s'. playerRevivePosition E clientId s = (Returned v, s')) \<and>
    (\<forall>e w. ws_clientPlayer E (m_worldServer s) clientId = (Raised e, w) \<longrightarrow>
       playerRevivePosition E clientId s =
         (Returned None, s\<lparr>m_worldServer := w, logger := logger s @ [ExceptionCaught e], m_errorOccurred := True\<rparr>))) \<and>
   ((\<exists>v s'. pullNewPlanetType E s = (Returned v, s')) \<and>
    (\<forall>e w. ws_pullNewPlanetType E (m_worldServer s) = (Raised e, w) \<longrightarrow>
       pullNewPlanetType E s =
         (Returned None, s\<lparr>m_worldServer := w, logger := logger s @ [ExceptionCaught e], m_errorOccurred := True\<rparr>))) \<and>
   ((\<exists>v s'. readChunks E s = (Returned v, s')) \<and>
    (\<forall>e w. ws_readChunks E (m_worldServer s) = (Raised e, w) \<longrightarrow>
       readChunks E s =
         (Returned [], s\<lparr>m_worldServer := w, logger := logger s @ [ExceptionCaught e], m_errorOccurred := True\<rparr>))) \<and>
   ((\<exists>v s'. run E h config observations s = (Returned v, s')) \<and>
    (\<forall>e. config = Raised e \<longrightarrow>
       run E h config observations s =
         (Returned Exited, s\<lparr>logger := logger s @ [ExceptionCaught e], m_errorOccurred := True\<rparr>)) \<and>
    (\<forall>cfg e vars s1. config = Returned cfg \<and> run_loop E h cfg observations (initialVars, s) = (Raised e, vars, s1) \<longrightarrow>
       run E h config observations s =
         (Returned Exited, s1\<lparr>logger := logger s1 @ [ExceptionCaught e], m_errorOccurred := True\<rparr>))) \<and>
   executeAction (Some action) s = action s \<and>
   executeAction None s = (Raised ''bad_function_call'', s)"
proof (intro conjI)
  show "executeAction (Some action) s = action s"
    by (simp add: executeAction_def)
  show "executeAction None s = (Raised ''bad_function_call'', s)"
    by (simp add: executeAction_def)
qed (use spawnTargetValid_catches [of E spawnTarget s] addClient_catches [of E clientId spawnTarget isLocal s]
      removeClient_catches [of E clientId s] playerRevivePosition_catches [of E clientId s]
      pullNewPlanetType_catches [of E s] readChunks_catches [of E s]
      run_catches [of E h config observations s] in blast)+

text \<open>
  An instance: every operation on \<open>hostBroken\<close>, whose engine raises in every fallible
  member, and \<open>run\<close> once more with a configuration that cannot be read.
\<close>

theorem public_operations_catch_witness:
  "fst (spawnTargetValid echoEngine 5 hostBroken) = Returned False \<and>
   m_errorOccurred (snd (spawnTargetValid echoEngine 5 hostBroken)) \<and>
   fst (addClient echoEngine 2 5 False hostBroken) = Returned False \<and>
   m_errorOccurred (snd (addClient echoEngine 2 5 False hostBroken)) \<and>
   fst (removeClient echoEngine 2 hostBroken) = Returned [] \<and>
   m_errorOccurred (snd (removeClient echoEngine 2 hostBroken)) \<and>
   fst (playerRevivePosition echoEngine 2 hostBroken) = Returned None \<and>
   m_errorOccurred (snd (playerRevivePosition echoEngine 2 hostBroken)) \<and>
   fst (pullNewPlanetType echoEngine hostBroken) = Returned None \<and>
   m_errorOccurred (snd (pullNewPlanetType echoEngine hostBroken)) \<and>
   fst (readChunks echoEngine hostBroken) = Returned [] \<and>
   m_errorOccurred (snd (readChunks echoEngine hostBroken)) \<and>
   fst (run echoEngine None (Returned cfgAuto) [obsSlow] hostBroken) = Returned Exited \<and>
   m_errorOccurred (snd (run echoEngine None (Returned cfgAuto) [obsSlow] hostBroken)) \<and>
   fst (run echoEngine None (Raised ''missing asset'') [obsSlow] hostBroken) = Returned Exited \<and>
   m_errorOccurred (snd (run echoEngine None (Raised ''missing asset'') [obsSlow] hostBroken)) \<and>
   fst (executeAction (Some raisingAction) hostBroken) = Raised ''action failed''"
proof -
  note broken = hostBroken_def hostA_def echoEngine_def echoWorld_def guarded_def
  have h1: "ws_spawnTargetValid echoEngine (m_worldServer hostBroken) 5 =
              (Raised ''world broken'', m_worldServer hostBroken)"
    by (simp add: broken)
  have h2: "ws_addClient echoEngine (m_worldServer hostBroken) 2 5 False =
              (Raised ''world broken'', m_worldServer hostBroken)"
    by (simp add: broken)
  have h3a: "2 \<in> m_clients hostBroken"
    by (simp add: broken)
  have "fst (removeClient_try echoEngine 2 hostBroken) = Raised ''world broken'' \<and>
        fst (snd (removeClient_try echoEngine 2 hostBroken)) = []"
    by (simp add: removeClient_try_def take_queue_def engine_call_def Let_def broken)
  then have h3: "removeClient_try echoEngine 2 hostBroken =
              (Raised ''world broken'', [], snd (snd (removeClient_try echoEngine 2 hostBroken)))"
    by (simp add: prod_eq_iff)
  have h4: "ws_clientPlayer echoEngine (m_worldServer hostBroken) 2 =
              (Raised ''world broken'', m_worldServer hostBroken)"
    by (simp add: broken)
  have h5: "ws_pullNewPlanetType echoEngine (m_worldServer hostBroken) =
              (Raised ''world broken'', m_worldServer hostBroken)"
    by (simp add: broken)
  have h6: "ws_readChunks echoEngine (m_worldServer hostBroken) =
              (Raised ''world broken'', m_worldServer hostBroken)"
    by (simp add: broken)
  have "fst (run_loop echoEngine None cfgAuto [obsSlow] (initialVars, hostBroken)) = Raised ''world broken''"
    by (simp add: run_iteration_def tick_eval obsSlow_def broken)
  then have h7: "run_loop echoEngine None cfgAuto [obsSlow] (initialVars, hostBroken) =
              (Raised ''world broken'',
               fst (snd (run_loop echoEngine None cfgAuto [obsSlow] (initialVars, hostBroken))),
               snd (snd (run_loop echoEngine None cfgAuto [obsSlow] (initialVars, hostBroken))))"
    by (simp add: prod_eq_iff)
  note loop = public_operations_catch [where E = echoEngine and spawnTarget = 5 and s = hostBroken
      and clientId = 2 and isLocal = False and h = None and config = "Returned cfgAuto"
      and observations = "[obsSlow]" and action = raisingAction]
  note config = public_operations_catch [where E = echoEngine and spawnTarget = 5 and s = hostBroken
      and clientId = 2 and isLocal = False and h = None and config = "Raised ''missing asset''"
      and observations = "[obsSlow]" and action = raisingAction]
  from loop h1 have a1: "spawnTargetValid echoEngine 5 hostBroken =
      (Returned False, hostBroken\<lparr>m_worldServer := m_worldServer hostBroken,
         logger := logger hostBroken @ [ExceptionCaught ''world broken''], m_errorOccurred := True\<rparr>)"
    by blast
  from loop h2 have a2: "addClient echoEngine 2 5 False hostBroken =
      (Returned False, hostBroken\<lparr>m_worldServer := m_worldServer hostBroken,
         logger := logger hostBroken @ [ExceptionCaught ''world broken''], m_errorOccurred := True\<rparr>)"
    by blast
  from loop h3a h3 have a3: "removeClient echoEngine 2 hostBroken =
      (Returned [], unregister 2 ((snd (snd (removeClient_try echoEngine 2 hostBroken)))
         \<lparr>logger := logger (snd (snd (removeClient_try echoEngine 2 hostBroken))) @ [ExceptionCaught ''world broken''],
          m_errorOccurred := True\<rparr>))"
    by blast
  from loop h4 have a4: "playerRevivePosition echoEngine 2 hostBroken =
      (Returned None, hostBroken\<lparr>m_worldServer := m_worldServer hostBroken,
         logger := logger hostBroken @ [ExceptionCaught ''world broken''], m_errorOccurred := True\<rparr>)"
    by blast
  from loop h5 have a5: "pullNewPlanetType echoEngine hostBroken =
      (Returned None, hostBroken\<lparr>m_worldServer := m_worldServer hostBroken,
         logger := logger hostBroken @ [ExceptionCaught ''world broken''], m_errorOccurred := True\<rparr>)"
    by blast
  from loop h6 have a6: "readChunks echoEngine hostBroken =
      (Returned [], hostBroken\<lparr>m_worldServer := m_worldServer hostBroken,
         logger := logger hostBroken @ [ExceptionCaught ''world broken''], m_errorOccurred := True\<rparr>)"
    by blast
  from loop h7 have a7: "run echoEngine None (Returned cfgAuto) [obsSlow] hostBroken =
      (Returned Exited, (snd (snd (run_loop echoEngine None cfgAuto [obsSlow] (initialVars, hostBroken))))
         \<lparr>logger := logger (snd (snd (run_loop echoEngine None cfgAuto [obsSlow] (initialVars, hostBroken))))
                      @ [ExceptionCaught ''world broken''],
          m_errorOccurred := True\<rparr>)"
    by blast
  from config have a8: "run echoEngine None (Raised ''missing asset'') [obsSlow] hostBroken =
      (Returned Exited, hostBroken\<lparr>logger := logger hostBroken @ [ExceptionCaught ''missing asset''],
         m_errorOccurred := True\<rparr>)"
    by blast
  from loop have a9: "executeAction (Some raisingAction) hostBroken = raisingAction hostBroken"
    by blast
  show ?thesis
    by (simp add: a1 a2 a3 a4 a5 a6 a7 a8 a9 unregister_def raisingAction_def)
qed

text \<open>
  C1 as stated fails for \<open>executeAction\<close>: the fault of the injected action reaches the
  caller, nothing is logged and the sticky flag is not set; the same holds for an empty
  action.
\<close>

theorem executeAction_counterexample:
  "executeAction (Some raisingAction) hostA = (Raised ''action failed'', hostA) \<and>
   executeAction None hostA = (Raised ''bad_function_call'', hostA)"
  by (simp add: executeAction_def raisingAction_def)

section \<open>A fault of a delivery during a tick\<close>

text \<open>
  What the handler of the first loop does for the client whose delivery raised, when the
  engine's removal returns: the fault is logged, the engine removes exactly that client,
  the packets of the removal are appended behind what was pending in the client's outgoing
  queue, and the id is removed from the list the second loop ranges over. No other queue
  entry is touched.
\<close>

lemma deliverOne_isolates:
  assumes "ws_handleIncomingPackets E (m_worldServer s) c (subscript (m_incomingPacketQueue s) c) = (Raised e, w1)"
    and "ws_removeClient E w1 c = (Returned final, w2)"
  shows "deliverOne E c ids s =
           (Returned (), list_remove c ids,
            s\<lparr>m_worldServer := w2,
              m_incomingPacketQueue := (m_incomingPacketQueue s)(c \<mapsto> []),
              m_outgoingPacketQueue := (m_outgoingPacketQueue s)(c \<mapsto> subscript (m_outgoingPacketQueue s) c @ final),
              logger := logger s @ [ExceptionCaughtHandling c e]\<rparr>)"
  using assms
  by (simp add: deliverOne_def take_queue_def engine_call_def touch_def appendAll_def subscript_def Let_def)

text \<open>
  C2 fails on the code. The engine of \<open>hostA\<close> lists the clients 1, 2 and 3, and the
  delivery for client 1 raises. The handler removes 1 from the list while the loop is
  running over it: the ids behind it move down one slot, the loop goes on with the next
  slot and so passes over client 2, and ends on the slot behind the shortened list, which
  still holds 3. The two packets of client 2 are neither drained nor delivered in this
  tick; client 3 is delivered twice, the second time with no packet. The part of the claim
  about client 1 holds: its fault is logged, the engine has removed it, and the packet of
  the removal is queued behind its pending one.
\<close>

theorem tick_fault_skips_next_client:
  "ws_clientIds echoEngine (m_worldServer hostA) = [1, 2, 3] \<and>
   m_incomingPacketQueue hostA 2 = Some [21, 22] \<and>
   fst (update echoEngine None Medium hostA) = Returned () \<and>
   logger (snd (update echoEngine None Medium hostA)) = [ExceptionCaughtHandling 1 ''bad packet''] \<and>
   e_clients (m_worldServer (snd (update echoEngine None Medium hostA))) = [2, 3] \<and>
   m_outgoingPacketQueue (snd (update echoEngine None Medium hostA)) 1 = Some [91, 1001] \<and>
   e_delivered (m_worldServer (snd (update echoEngine None Medium hostA))) = [(3, [31]), (3, [])] \<and>
   m_incomingPacketQueue (snd (update echoEngine None Medium hostA)) 2 = Some [21, 22] \<and>
   m_incomingPacketQueue (snd (update echoEngine None Medium hostA)) 3 = Some [] \<and>
   m_outgoingPacketQueue (snd (update echoEngine None Medium hostA)) 2 = Some [] \<and>
   m_outgoingPacketQueue (snd (update echoEngine None Medium hostA)) 3 = Some [31]"
  by (simp add: tick_eval echo_eval hostA_def)

section \<open>The fidelity controller\<close>

lemma run_iteration_vars:
  "run_iteration E h cfg obs (vars, s) = (Returned u, vars', s') \<Longrightarrow>
   vars' = adjustFidelity cfg (spareTime obs) vars"
  by (auto simp: run_iteration_def split: prod.splits outcome.splits if_splits)

lemma adjustFidelity_cases:
  assumes "fidelityDecrementScore cfg \<le> 0" and "0 < fidelityIncrementScore cfg"
  shows "(if fidelityScore vars + spare \<le> fidelityDecrementScore cfg
       then fidelityToInt (automaticFidelity (adjustFidelity cfg spare vars)) =
              max 0 (fidelityToInt (automaticFidelity vars) - 1) \<and>
            fidelityScore (adjustFidelity cfg spare vars) = 0
       else if fidelityIncrementScore cfg \<le> fidelityScore vars + spare
       then fidelityToInt (automaticFidelity (adjustFidelity cfg spare vars)) =
              min 3 (fidelityToInt (automaticFidelity vars) + 1) \<and>
            fidelityScore (adjustFidelity cfg spare vars) = 0
       else automaticFidelity (adjustFidelity cfg spare vars) = automaticFidelity vars \<and>
            fidelityScore (adjustFidelity cfg spare vars) = fidelityScore vars + spare)"
  using assms
  by (cases "automaticFidelity vars")
     (auto simp: adjustFidelity_def Let_def fidelityToInt_def fidelityFromInt_def stepFidelity_def)

lemma hostB_iteration:
  "storageTimeUp obs = False \<Longrightarrow>
   run_iteration echoEngine None cfg obs (vars, hostB) =
     (Returned (), adjustFidelity cfg (spareTime obs) vars,
      hostB\<lparr>m_worldServer := (echoWorld [])\<lparr>e_fidelity := Some (appliedFidelity cfg vars), e_updates := 1\<rparr>\<rparr>)"
  by (simp add: run_iteration_def deliverIncoming.simps update_def updateUnlessPaused_def hostB_def
      echoEngine_def echoWorld_def engine_call_def guarded_def elements_def)

text \<open>
  C3. With thresholds \<open>decrementThreshold \<le> 0 < incrementThreshold\<close>, a tick that runs to
  its end adds the spare time to the score and then does exactly one of three things: at
  or below the decrement threshold the level goes down one step, not below Minimum, and
  the score is reset to 0; at or above the increment threshold the level goes up one step,
  not above High, and the score is reset to 0; otherwise level and score stay. The level
  moves by at most one step and stays between Minimum and High; the reset happens also
  when the level is already at its bound.
\<close>

theorem fidelity_controller_step:
  assumes "fidelityDecrementScore cfg \<le> 0" and "0 < fidelityIncrementScore cfg"
    and "run_iteration E h cfg obs (vars, s) = (Returned u, vars', s')"
  shows "(if fidelityScore vars + spareTime obs \<le> fidelityDecrementScore cfg
       then fidelityToInt (automaticFidelity vars') = max 0 (fidelityToInt (automaticFidelity vars) - 1) \<and>
            fidelityScore vars' = 0
       else if fidelityIncrementScore cfg \<le> fidelityScore vars + spareTime obs
       then fidelityToInt (automaticFidelity vars') = min 3 (fidelityToInt (automaticFidelity vars) + 1) \<and>
            fidelityScore vars' = 0
       else automaticFidelity vars' = automaticFidelity vars \<and>
            fidelityScore vars' = fidelityScore vars + spareTime obs) \<and>
      \<bar>fidelityToInt (automaticFidelity vars') - fidelityToInt (automaticFidelity vars)\<bar> \<le> 1 \<and>
      fidelityToInt Minimum \<le> fidelityToInt (automaticFidelity vars') \<and>
      fidelityToInt (automaticFidelity vars') \<le> fidelityToInt High"
proof -
  have v: "vars' = adjustFidelity cfg (spareTime obs) vars"
    using assms(3) by (rule run_iteration_vars)
  have range: "0 \<le> fidelityToInt f \<and> fidelityToInt f \<le> 3" for f
    by (cases f) (simp_all add: fidelityToInt_def)
  from adjustFidelity_cases [OF assms(1,2), of vars "spareTime obs"] range [of "automaticFidelity vars"]
    range [of "automaticFidelity vars'"]
  show ?thesis
    unfolding v by (auto simp: fidelityToInt_def split: if_splits)
qed

theorem fidelity_controller_step_witness:
  "fidelityDecrementScore cfgAuto \<le> 0 \<and> 0 < fidelityIncrementScore cfgAuto \<and>
   fst (run_iteration echoEngine None cfgAuto obsSlow (initialVars, hostB)) = Returned () \<and>
   fidelityScore initialVars + spareTime obsSlow = fidelityDecrementScore cfgAuto \<and>
   fidelityToInt (automaticFidelity initialVars) = 2 \<and>
   fidelityToInt (automaticFidelity (fst (snd (run_iteration echoEngine None cfgAuto obsSlow (initialVars, hostB))))) = 1 \<and>
   fidelityScore (fst (snd (run_iteration echoEngine None cfgAuto obsSlow (initialVars, hostB)))) = 0"
proof -
  have a: "fidelityDecrementScore cfgAuto \<le> 0" and b: "0 < fidelityIncrementScore cfgAuto"
    by (simp_all add: cfgAuto_def)
  have c: "run_iteration echoEngine None cfgAuto obsSlow (initialVars, hostB) =
     (Returned (), adjustFidelity cfgAuto (spareTime obsSlow) initialVars,
      hostB\<lparr>m_worldServer := (echoWorld [])\<lparr>e_fidelity := Some (appliedFidelity cfgAuto initialVars), e_updates := 1\<rparr>\<rparr>)"
    by (rule hostB_iteration) (simp add: obsSlow_def)
  have d: "fidelityScore initialVars + spareTime obsSlow = fidelityDecrementScore cfgAuto"
    by (simp add: initialVars_def obsSlow_def cfgAuto_def)
  have e: "fidelityToInt (automaticFidelity initialVars) = 2"
    by (simp add: initialVars_def fidelityToInt_def)
  from fidelity_controller_step [OF a b c] a b d e show ?thesis
    by (simp add: c)
qed

text \<open>
  C6, as the code has it. With a fixed level configured, every tick hands that level to
  \<open>update\<close>, and the host is left as \<open>update\<close> with that level (and the periodic sync)
  leaves it; the controller is not skipped: after a tick that runs to its end the two
  locals are what the controller computes from the spare time, as in automatic mode.
\<close>

theorem locked_fidelity_iteration:
  assumes "lockedFidelity cfg = Some f"
    and "run_iteration E h cfg obs (vars, s) = (Returned u, vars', s')"
  shows "appliedFidelity cfg vars = f \<and>
     (\<exists>s1. update E h f s = (Returned (), s1) \<and>
           (if storageTimeUp obs then sync E s1 = (Returned (), s') else s' = s1)) \<and>
     vars' = adjustFidelity cfg (spareTime obs) vars"
  using assms
  by (auto simp: run_iteration_def appliedFidelity_def split: prod.splits outcome.splits if_splits)

theorem locked_fidelity_iteration_witness:
  "lockedFidelity cfgLocked = Some High \<and>
   fst (run_iteration echoEngine None cfgLocked obsSlow (initialVars, hostB)) = Returned () \<and>
   appliedFidelity cfgLocked initialVars = High \<and>
   e_fidelity (m_worldServer (snd (snd (run_iteration echoEngine None cfgLocked obsSlow (initialVars, hostB))))) = Some High \<and>
   fst (snd (run_iteration echoEngine None cfgLocked obsSlow (initialVars, hostB))) =
     adjustFidelity cfgLocked (spareTime obsSlow) initialVars"
proof -
  have a: "lockedFidelity cfgLocked = Some High"
    by (simp add: cfgLocked_def)
  have c: "run_iteration echoEngine None cfgLocked obsSlow (initialVars, hostB) =
     (Returned (), adjustFidelity cfgLocked (spareTime obsSlow) initialVars,
      hostB\<lparr>m_worldServer := (echoWorld [])\<lparr>e_fidelity := Some (appliedFidelity cfgLocked initialVars), e_updates := 1\<rparr>\<rparr>)"
    by (rule hostB_iteration) (simp add: obsSlow_def)
  from locked_fidelity_iteration [OF a c] a show ?thesis
    by (simp add: c)
qed

text \<open>
  C6 as stated fails: with the level fixed at High, a tick that overran its budget moves
  the automatic level from Medium to Low, and a tick with time to spare adds it to the
  score.
\<close>

theorem locked_fidelity_counterexample:
  "lockedFidelity cfgLocked = Some High \<and>
   automaticFidelity initialVars = Medium \<and>
   automaticFidelity (fst (snd (run_iteration echoEngine None cfgLocked obsSlow (initialVars, hostB)))) = Low \<and>
   fidelityScore initialVars = 0 \<and>
   fidelityScore (fst (snd (run_iteration echoEngine None cfgLocked obsIdle (initialVars, hostB)))) = 1 / 4"
  by (simp add: hostB_iteration obsSlow_def obsIdle_def cfgLocked_def initialVars_def
      adjustFidelity_def Let_def fidelityToInt_def fidelityFromInt_def stepFidelity_def)

section \<open>The registry and the queue maps under the other calls\<close>

lemma removeClient_try_frame:
  assumes "removeClient_try E c s = (r, out, s')"
  shows "m_clients s' = m_clients s \<and> m_stop s' = m_stop s \<and>
         dom (m_incomingPacketQueue s') - {c} = dom (m_incomingPacketQueue s) - {c} \<and>
         dom (m_outgoingPacketQueue s') - {c} = dom (m_outgoingPacketQueue s) - {c}"
  using assms
  by (auto simp: removeClient_try_def take_queue_def engine_call_def Let_def
      split: prod.splits outcome.splits if_splits)

lemma removeClient_registered:
  assumes "removeClient E c s = (r, s')" and "c \<in> m_clients s"
  obtains s2 where "s' = unregister c s2"
    and "m_clients s2 = m_clients s" and "m_stop s2 = m_stop s"
    and "dom (m_incomingPacketQueue s2) - {c} = dom (m_incomingPacketQueue s) - {c}"
    and "dom (m_outgoingPacketQueue s2) - {c} = dom (m_outgoingPacketQueue s) - {c}"
proof -
  obtain r1 out s1 where t: "removeClient_try E c s = (r1, out, s1)"
    using prod_cases3 by blast
  note f = removeClient_try_frame [OF t]
  show ?thesis
  proof (cases r1)
    case (Returned u)
    with assms t have "s' = unregister c s1"
      by (simp add: removeClient_def)
    with f that show ?thesis by blast
  next
    case (Raised e)
    with assms t
    have "s' = unregister c (s1\<lparr>logger := logger s1 @ [ExceptionCaught e], m_errorOccurred := True\<rparr>)"
      by (simp add: removeClient_def)
    with f that [of "s1\<lparr>logger := logger s1 @ [ExceptionCaught e], m_errorOccurred := True\<rparr>"]
    show ?thesis by simp
  qed
qed

lemma removeClient_effect:
  assumes "removeClient E c s = (r, s')"
  shows "m_clients s' = m_clients s - {c}"
    and "m_stop s' = m_stop s"
    and "dom (m_incomingPacketQueue s') =
           (if c \<in> m_clients s then dom (m_incomingPacketQueue s) - {c} else dom (m_incomingPacketQueue s))"
    and "dom (m_outgoingPacketQueue s') =
           (if c \<in> m_clients s then dom (m_outgoingPacketQueue s) - {c} else dom (m_outgoingPacketQueue s))"
proof -
  have "m_clients s' = m_clients s - {c} \<and> m_stop s' = m_stop s \<and>
        dom (m_incomingPacketQueue s') =
           (if c \<in> m_clients s then dom (m_incomingPacketQueue s) - {c} else dom (m_incomingPacketQueue s)) \<and>
        dom (m_outgoingPacketQueue s') =
           (if c \<in> m_clients s then dom (m_outgoingPacketQueue s) - {c} else dom (m_outgoingPacketQueue s))"
  proof (cases "c \<in> m_clients s")
    case False
    with assms show ?thesis by (simp add: removeClient_def)
  next
    case True
    with assms obtain s2 where "s' = unregister c s2"
      and "m_clients s2 = m_clients s" and "m_stop s2 = m_stop s"
      and "dom (m_incomingPacketQueue s2) - {c} = dom (m_incomingPacketQueue s) - {c}"
      and "dom (m_outgoingPacketQueue s2) - {c} = dom (m_outgoingPacketQueue s) - {c}"
      by (rule removeClient_registered)
    with True show ?thesis
      by (simp add: unregister_def)
  qed
  then show "m_clients s' = m_clients s - {c}"
    and "m_stop s' = m_stop s"
    and "dom (m_incomingPacketQueue s') =
           (if c \<in> m_clients s then dom (m_incomingPacketQueue s) - {c} else dom (m_incomingPacketQueue s))"
    and "dom (m_outgoingPacketQueue s') =
           (if c \<in> m_clients s then dom (m_outgoingPacketQueue s) - {c} else dom (m_outgoingPacketQueue s))"
    by simp_all
qed

lemma fold_removeClient:
  "m_clients (fold (\<lambda>c s'. snd (removeClient E c s')) cs s) = m_clients s - set cs \<and>
   m_stop (fold (\<lambda>c s'. snd (removeClient E c s')) cs s) = m_stop s \<and>
   dom (m_incomingPacketQueue (fold (\<lambda>c s'. snd (removeClient E c s')) cs s)) =
     dom (m_incomingPacketQueue s) - (set cs \<inter> m_clients s) \<and>
   dom (m_outgoingPacketQueue (fold (\<lambda>c s'. snd (removeClient E c s')) cs s)) =
     dom (m_outgoingPacketQueue s) - (set cs \<inter> m_clients s)"
proof (induction cs arbitrary: s)
  case Nil
  show ?case by simp
next
  case (Cons c cs)
  obtain r s1 where rc: "removeClient E c s = (r, s1)"
    by (cases "removeClient E c s")
  note eff = removeClient_effect [OF rc]
  from Cons.IH [of s1] rc eff show ?case
    by (cases "c \<in> m_clients s") auto
qed

section \<open>Destruction\<close>

text \<open>
  C5, as the code has it. The destructor sets the stop flag and calls \<open>removeClient\<close> for
  every id the engine lists (not for every id of the registry). Afterwards the registry has
  lost exactly the ids the engine listed, and the two queue maps have lost exactly the
  entries of the ids that were both listed by the engine and registered; whatever else was
  registered or queued is still there.
\<close>

theorem destructor_removes_engine_clients:
  "m_stop (destructor E s) \<and>
   m_clients (destructor E s) = m_clients s - set (ws_clientIds E (m_worldServer s)) \<and>
   dom (m_incomingPacketQueue (destructor E s)) =
     dom (m_incomingPacketQueue s) - (set (ws_clientIds E (m_worldServer s)) \<inter> m_clients s) \<and>
   dom (m_outgoingPacketQueue (destructor E s)) =
     dom (m_outgoingPacketQueue s) - (set (ws_clientIds E (m_worldServer s)) \<inter> m_clients s)"
  using fold_removeClient [of E "ws_clientIds E (m_worldServer s)" "s\<lparr>m_stop := True\<rparr>"]
  by (simp add: destructor_def Let_def)

text \<open>
  C5 as stated fails. On \<open>hostA\<close> a tick isolates client 1: the engine drops it, the
  registry keeps it. The destructor then removes clients 2 and 3 only; client 1 is still
  registered, and its outgoing queue still holds its two packets.
\<close>

theorem destructor_counterexample:
  "fst (update echoEngine None Medium hostA) = Returned () \<and>
   1 \<in> m_clients (destructor echoEngine (snd (update echoEngine None Medium hostA))) \<and>
   m_incomingPacketQueue (destructor echoEngine (snd (update echoEngine None Medium hostA))) 1 = Some [] \<and>
   m_outgoingPacketQueue (destructor echoEngine (snd (update echoEngine None Medium hostA))) 1 = Some [91, 1001]"
  by (simp add: destructor_def removeClient_def removeClient_try_def unregister_def tick_eval echo_eval hostA_def)

section \<open>Queue entries of ids that are not registered\<close>

lemma addClient_effect:
  assumes "addClient E c t l s = (r, s')"
  shows "m_incomingPacketQueue s' = m_incomingPacketQueue s \<and>
         m_outgoingPacketQueue s' = m_outgoingPacketQueue s \<and>
         (m_clients s' = m_clients s \<or> m_clients s' = insert c (m_clients s))"
  using assms
  by (auto simp: addClient_def try_catch_def caught_def engine_call_def
      split: prod.splits outcome.splits if_splits)

lemma perform_unregistered:
  assumes hook: "hook_ok E h"
    and unreg: "c \<notin> m_clients s"
    and noadd: "\<forall>t l. op \<noteq> AddClient c t l"
  shows "c \<notin> m_clients (perform E h op s) \<and>
         (c \<in> dom (m_incomingPacketQueue s) \<longrightarrow> c \<in> dom (m_incomingPacketQueue (perform E h op s))) \<and>
         (c \<in> dom (m_outgoingPacketQueue s) \<longrightarrow> c \<in> dom (m_outgoingPacketQueue (perform E h op s)))"
proof (cases op)
  case (PushIncoming c' ps)
  with unreg show ?thesis
    by (auto simp: perform_def pushIncomingPackets_def dom_appendAll)
next
  case (PullOutgoing c')
  with unreg show ?thesis
    by (auto simp: perform_def pullOutgoingPackets_def take_queue_def)
next
  case (Tick f)
  have "tick_frame s (snd (update E h f s))"
    by (rule tick_frame_update [OF hook surjective_pairing])
  with unreg Tick show ?thesis
    by (auto simp: perform_def tick_frame_def)
next
  case (AddClient c' t l)
  with noadd have "c' \<noteq> c" by auto
  with unreg AddClient addClient_effect [OF surjective_pairing, of E c' t l s] show ?thesis
    by (auto simp: perform_def)
next
  case (RemoveClient c')
  show ?thesis
  proof (cases "c' = c")
    case True
    with unreg RemoveClient show ?thesis
      by (simp add: perform_def removeClient_def)
  next
    case False
    obtain r s1 where rc: "removeClient E c' s = (r, s1)"
      by (cases "removeClient E c' s")
    from removeClient_effect [OF rc] False unreg RemoveClient rc show ?thesis
      by (auto simp: perform_def split: if_splits)
  qed
next
  case (SetPause p)
  with unreg show ?thesis
    by (simp add: perform_def setPause_def)
qed

lemma perform_all_unregistered:
  assumes "hook_ok E h"
    and "c \<notin> m_clients s"
    and "\<forall>op\<in>set ops. \<forall>t l. op \<noteq> AddClient c t l"
  shows "c \<notin> m_clients (perform_all E h ops s) \<and>
         (c \<in> dom (m_incomingPacketQueue s) \<longrightarrow> c \<in> dom (m_incomingPacketQueue (perform_all E h ops s))) \<and>
         (c \<in> dom (m_outgoingPacketQueue s) \<longrightarrow> c \<in> dom (m_outgoingPacketQueue (perform_all E h ops s)))"
  using assms(2,3)
proof (induction ops arbitrary: s)
  case Nil
  then show ?case by (simp add: perform_all_def)
next
  case (Cons op ops)
  from Cons.prems have noadd: "\<forall>t l. op \<noteq> AddClient c t l" by simp
  note one = perform_unregistered [OF assms(1) Cons.prems(1) noadd]
  from Cons.prems have rest: "\<forall>op\<in>set ops. \<forall>t l. op \<noteq> AddClient c t l" by simp
  from one have "c \<notin> m_clients (perform E h op s)" by simp
  from Cons.IH [OF this rest] one show ?case
    by (simp add: perform_all_def)
qed

text \<open>
  C7, as the code has it. \<open>pushIncomingPackets\<close> and \<open>pullOutgoingPackets\<close> create the queue
  entry of their id whether or not the id is registered, so the key sets of the queue maps
  are not confined to the registry; and while the id is not registered, the entry stays
  through every later push, pull, tick, change of the pause flag, \<open>removeClient\<close> of any
  id and \<open>addClient\<close> of another id. (\<open>removeClient\<close> of an id that is not registered
  returns before it erases anything.)
\<close>

theorem unregistered_queue_entry_stays:
  assumes "hook_ok E h"
    and "clientId \<notin> m_clients s"
    and "\<forall>op\<in>set ops. \<forall>t l. op \<noteq> AddClient clientId t l"
  shows "clientId \<in> dom (m_incomingPacketQueue (perform_all E h (PushIncoming clientId packets # ops) s)) \<and>
         clientId \<notin> m_clients (perform_all E h (PushIncoming clientId packets # ops) s) \<and>
         clientId \<in> dom (m_outgoingPacketQueue (perform_all E h (PullOutgoing clientId # ops) s)) \<and>
         clientId \<notin> m_clients (perform_all E h (PullOutgoing clientId # ops) s)"
proof -
  let ?push = "perform E h (PushIncoming clientId packets) s"
  let ?pull = "perform E h (PullOutgoing clientId) s"
  have push: "clientId \<notin> m_clients ?push" "clientId \<in> dom (m_incomingPacketQueue ?push)"
    using assms(2) by (simp_all add: perform_def pushIncomingPackets_def dom_appendAll)
  have pull: "clientId \<notin> m_clients ?pull" "clientId \<in> dom (m_outgoingPacketQueue ?pull)"
    using assms(2) by (simp_all add: perform_def pullOutgoingPackets_def take_queue_def)
  from perform_all_unregistered [OF assms(1) push(1) assms(3)] push(2)
    perform_all_unregistered [OF assms(1) pull(1) assms(3)] pull(2)
  show ?thesis
    by (simp add: perform_all_def)
qed

theorem unregistered_queue_entry_stays_witness:
  "hook_ok echoEngine (Some countingAction) \<and>
   7 \<notin> m_clients hostA \<and>
   list_all (\<lambda>op. \<forall>t l. op \<noteq> AddClient 7 t l) [Tick Medium, RemoveClient 7, AddClient 4 1 False, PullOutgoing 2] \<and>
   7 \<in> dom (m_incomingPacketQueue (perform_all echoEngine (Some countingAction)
          [PushIncoming 7 [70], Tick Medium, RemoveClient 7, AddClient 4 1 False, PullOutgoing 2] hostA)) \<and>
   7 \<notin> m_clients (perform_all echoEngine (Some countingAction)
          [PushIncoming 7 [70], Tick Medium, RemoveClient 7, AddClient 4 1 False, PullOutgoing 2] hostA) \<and>
   7 \<in> dom (m_outgoingPacketQueue (perform_all echoEngine (Some countingAction)
          [PullOutgoing 7, Tick Medium, RemoveClient 7, AddClient 4 1 False, PullOutgoing 2] hostA))"
proof -
  have a: "hook_ok echoEngine (Some countingAction)"
    unfolding hook_ok_def engine_only_def countingAction_def option.case
    by (intro allI exI conjI, rule refl) (simp add: echoEngine_def)
  have b: "7 \<notin> m_clients hostA"
    by (simp add: hostA_def)
  have c: "\<forall>op\<in>set [Tick Medium, RemoveClient 7, AddClient 4 1 False, PullOutgoing 2].
             \<forall>t l. op \<noteq> AddClient 7 t l"
    by simp
  from unregistered_queue_entry_stays [OF a b c, of "[70]"] a b show ?thesis
    by simp
qed

text \<open>
  C7 as stated fails. On the host with no client, a push for the id 7, which is never
  registered, leaves an incoming entry that a tick and a \<open>removeClient\<close> of 7 do not
  erase: the key set of the incoming queue map is not a subset of the registry, and the
  pushed packet is still queued.
\<close>

theorem unregistered_queue_entry_counterexample:
  "m_clients (perform_all echoEngine None [PushIncoming 7 [70], Tick Medium, RemoveClient 7] hostB) = {} \<and>
   m_incomingPacketQueue (perform_all echoEngine None [PushIncoming 7 [70], Tick Medium, RemoveClient 7] hostB) 7
     = Some [70] \<and>
   \<not> dom (m_incomingPacketQueue (perform_all echoEngine None [PushIncoming 7 [70], Tick Medium, RemoveClient 7] hostB))
       \<subseteq> m_clients (perform_all echoEngine None [PushIncoming 7 [70], Tick Medium, RemoveClient 7] hostB)"
  by (simp add: perform_all_def perform_def pushIncomingPackets_def removeClient_def
      tick_eval echo_eval hostB_def)

section \<open>The order of the packets\<close>

subsection \<open>The record accounts for the queues\<close>

lemma produced_for_append: "produced_for c (xs @ ys) = produced_for c xs @ produced_for c ys"
  by (induction c xs rule: produced_for.induct) simp_all

lemma delivered_for_append: "delivered_for c (xs @ ys) = delivered_for c xs @ delivered_for c ys"
  by (induction c xs rule: delivered_for.induct) simp_all

lemma accounted_refl: "accounted s s"
  unfolding accounted_def by (rule exI [of _ "[]"]) simp

lemma accounted_trans:
  assumes "accounted s s'" and "accounted s' s''"
  shows "accounted s s''"
proof -
  from assms(1) obtain e1 where 1: "snd (m_worldServer s') = snd (m_worldServer s) @ e1"
    "\<And>c. subscript (m_outgoingPacketQueue s') c = subscript (m_outgoingPacketQueue s) c @ produced_for c e1"
    "\<And>c. subscript (m_incomingPacketQueue s) c = delivered_for c e1 @ subscript (m_incomingPacketQueue s') c"
    unfolding accounted_def by blast
  from assms(2) obtain e2 where 2: "snd (m_worldServer s'') = snd (m_worldServer s') @ e2"
    "\<And>c. subscript (m_outgoingPacketQueue s'') c = subscript (m_outgoingPacketQueue s') c @ produced_for c e2"
    "\<And>c. subscript (m_incomingPacketQueue s') c = delivered_for c e2 @ subscript (m_incomingPacketQueue s'') c"
    unfolding accounted_def by blast
  show ?thesis
    unfolding accounted_def
    by (rule exI [of _ "e1 @ e2"]) (simp add: 1 2 produced_for_append delivered_for_append)
qed

lemma recording_sel:
  "ws_clientIds (recording E) x = ws_clientIds E (fst x)"
  "ws_handleIncomingPackets (recording E) x c ps =
     (fst (ws_handleIncomingPackets E (fst x) c ps),
      (snd (ws_handleIncomingPackets E (fst x) c ps), snd x @ [Delivered c ps]))"
  "ws_removeClient (recording E) x c = recorded c (ws_removeClient E (fst x) c) x"
  "ws_getOutgoingPackets (recording E) x c = recorded c (ws_getOutgoingPackets E (fst x) c) x"
  "ws_setFidelity (recording E) x f = unrecorded (ws_setFidelity E (fst x) f) x"
  "ws_update (recording E) x = unrecorded (ws_update E (fst x)) x"
  by (simp_all add: recording_def)

lemma recorded_events:
  "recorded c result x = (Returned ps, y) \<Longrightarrow> snd y = snd x @ [Produced c ps]"
  "recorded c result x = (Raised e, y) \<Longrightarrow> snd y = snd x"
  by (auto simp: recorded_def split: prod.splits outcome.splits)

lemma accounted_same:
  assumes "snd (m_worldServer s') = snd (m_worldServer s)"
    and "\<And>c. subscript (m_outgoingPacketQueue s') c = subscript (m_outgoingPacketQueue s) c"
    and "m_incomingPacketQueue s' = m_incomingPacketQueue s"
  shows "accounted s s'"
  unfolding accounted_def by (rule exI [of _ "[]"]) (simp add: assms)

lemma accounted_delivery:
  assumes "engine_call (\<lambda>x. ws_handleIncomingPackets (recording E) x c (subscript (m_incomingPacketQueue s) c))
             (s\<lparr>m_incomingPacketQueue := (m_incomingPacketQueue s)(c \<mapsto> [])\<rparr>) = (r, s')"
  shows "accounted s s'"
proof -
  note st = engine_call_state(1) [OF assms]
  show ?thesis
    unfolding accounted_def
    by (rule exI [of _ "[Delivered c (subscript (m_incomingPacketQueue s) c)]"])
       (simp add: st recording_sel subscript_def)
qed

lemma accounted_removal:
  assumes "engine_call (\<lambda>x. ws_removeClient (recording E) x c)
             (s\<lparr>logger := l, m_outgoingPacketQueue := touch (m_outgoingPacketQueue s) c\<rparr>) = (r, s5)"
  shows "accounted s
           (case r of Returned final \<Rightarrow> s5\<lparr>m_outgoingPacketQueue := appendAll (m_outgoingPacketQueue s5) c final\<rparr>
            | Raised e \<Rightarrow> s5)"
proof -
  let ?s4 = "s\<lparr>logger := l, m_outgoingPacketQueue := touch (m_outgoingPacketQueue s) c\<rparr>"
  note rest = engine_call_rest [OF assms]
  from engine_call_state(2) [OF assms]
  have rec: "recorded c (ws_removeClient E (fst (m_worldServer s)) c) (m_worldServer s) = (r, m_worldServer s5)"
    by (simp add: recording_sel)
  show ?thesis
  proof (cases r)
    case (Raised e)
    with rec have "snd (m_worldServer s5) = snd (m_worldServer s)"
      by (auto dest: recorded_events(2))
    with Raised rest show ?thesis
      by (auto intro!: accounted_same simp: subscript_touch)
  next
    case (Returned final)
    with rec have ev: "snd (m_worldServer s5) = snd (m_worldServer s) @ [Produced c final]"
      by (auto dest: recorded_events(1))
    show ?thesis
      unfolding accounted_def Returned outcome.case
      by (rule exI [of _ "[Produced c final]"])
         (simp add: ev rest subscript_appendAll subscript_touch)
  qed
qed

lemma accounted_deliverOne:
  assumes "deliverOne (recording E) c ids s = (r, ids', s')"
  shows "accounted s s'"
  using assms
proof (cases rule: deliverOne_cases)
  case (delivered u)
  then show ?thesis by (auto intro: accounted_delivery)
next
  case (removal_raised e s2 e')
  from removal_raised(1) have "accounted s s2" by (rule accounted_delivery)
  moreover from accounted_removal [OF removal_raised(2)] have "accounted s2 s'" by simp
  ultimately show ?thesis by (rule accounted_trans)
next
  case (isolated e s2 final s5)
  from isolated(1) have "accounted s s2" by (rule accounted_delivery)
  moreover from accounted_removal [OF isolated(2)] isolated(3) have "accounted s2 s'" by simp
  ultimately show ?thesis by (rule accounted_trans)
qed

lemma accounted_collectOutgoing:
  "collectOutgoing (recording E) cs s = (r, s') \<Longrightarrow> accounted s s'"
proof (induction cs arbitrary: s)
  case Nil
  then show ?case by (simp add: accounted_refl)
next
  case (Cons c cs)
  obtain r1 s1 where call: "engine_call (\<lambda>x. ws_getOutgoingPackets (recording E) x c) s = (r1, s1)"
    by (cases "engine_call (\<lambda>x. ws_getOutgoingPackets (recording E) x c) s")
  note rest = engine_call_rest [OF call]
  from engine_call_state(2) [OF call]
  have rec: "recorded c (ws_getOutgoingPackets E (fst (m_worldServer s)) c) (m_worldServer s) = (r1, m_worldServer s1)"
    by (simp add: recording_sel)
  show ?case
  proof (cases r1)
    case (Raised e)
    with rec have "snd (m_worldServer s1) = snd (m_worldServer s)"
      by (auto dest: recorded_events(2))
    moreover from Raised Cons.prems call have "s' = s1" by simp
    ultimately show ?thesis
      using rest by (auto intro!: accounted_same)
  next
    case (Returned ps)
    let ?s2 = "s1\<lparr>m_outgoingPacketQueue := appendAll (m_outgoingPacketQueue s1) c ps\<rparr>"
    from Returned rec have ev: "snd (m_worldServer s1) = snd (m_worldServer s) @ [Produced c ps]"
      by (auto dest: recorded_events(1))
    have "accounted s ?s2"
      unfolding accounted_def
      by (rule exI [of _ "[Produced c ps]"]) (simp add: ev rest subscript_appendAll)
    moreover from Returned Cons.prems call have "collectOutgoing (recording E) cs ?s2 = (r, s')"
      by simp
    then have "accounted ?s2 s'" by (rule Cons.IH)
    ultimately show ?thesis by (rule accounted_trans)
  qed
qed

lemma accounted_unrecorded:
  assumes "engine_call f s = (r, s')" and "snd (snd (f (m_worldServer s))) = snd (m_worldServer s)"
  shows "accounted s s'"
  using engine_call_state(1) [OF assms(1)] assms(2)
  by (auto intro!: accounted_same)

lemma unobserved_observe: "unobserved (observe events s) = s"
  by (simp add: unobserved_def observe_def)

lemma accounted_hook:
  assumes "hook_ok E (Some action)" and "observed_action action s = (r, s')"
  shows "accounted s s'"
proof -
  obtain r1 s1 where a: "action (unobserved s) = (r1, s1)"
    by (cases "action (unobserved s)")
  from assms(1) a obtain w where s1: "s1 = (unobserved s)\<lparr>m_worldServer := w\<rparr>"
    by (auto elim: hook_effect)
  from assms(2) a have "s' = observe (snd (m_worldServer s)) s1"
    by (simp add: observed_action_def)
  with s1 show ?thesis
    by (auto intro!: accounted_same simp: observe_def unobserved_def)
qed

lemma accounted_update:
  assumes h: "hook_ok E h" and run: "update (recording E) (observed_hook h) f s = (r, s')"
  shows "accounted s s'"
  using run accounted_refl
proof (rule update_rule_loops)
  fix c ids1 s1 r2 ids2 s2
  assume "accounted s s1" and "deliverOne (recording E) c ids1 s1 = (r2, ids2, s2)"
  then show "accounted s s2"
    by (blast intro: accounted_trans accounted_deliverOne)
next
  fix s1 r2 s2
  assume a: "accounted s s1" and e: "engine_call (\<lambda>x. ws_setFidelity (recording E) x f) s1 = (r2, s2)"
  from e have "accounted s1 s2"
    by (rule accounted_unrecorded) (simp add: recording_sel unrecorded_def)
  with a show "accounted s s2" by (rule accounted_trans)
next
  fix s1 r2 s2
  assume a: "accounted s s1" and e: "engine_call (ws_update (recording E)) s1 = (r2, s2)"
  from e have "accounted s1 s2"
    by (rule accounted_unrecorded) (simp add: recording_sel unrecorded_def)
  with a show "accounted s s2" by (rule accounted_trans)
next
  fix cs s1 r2 s2
  assume "accounted s s1" and "collectOutgoing (recording E) cs s1 = (r2, s2)"
  then show "accounted s s2"
    by (blast intro: accounted_trans accounted_collectOutgoing)
next
  fix action s1 r2 s2
  assume a: "accounted s s1" and o: "observed_hook h = Some action" and r: "action s1 = (r2, s2)"
  from o obtain action0 where h0: "h = Some action0" and act: "action = observed_action action0"
    by (auto simp: observed_hook_def)
  from h h0 r act have "accounted s1 s2"
    by (auto intro: accounted_hook)
  with a show "accounted s s2" by (rule accounted_trans)
qed


lemma accounted_history:
  assumes h: "hook_ok E h" and "\<forall>op\<in>set ops. queue_traffic op"
  shows "\<exists>events.
           snd (m_worldServer (perform_all (recording E) (observed_hook h) ops s)) = snd (m_worldServer s) @ events \<and>
           pulled (recording E) (observed_hook h) c ops s @
             subscript (m_outgoingPacketQueue (perform_all (recording E) (observed_hook h) ops s)) c =
             subscript (m_outgoingPacketQueue s) c @ produced_for c events \<and>
           delivered_for c events @
             subscript (m_incomingPacketQueue (perform_all (recording E) (observed_hook h) ops s)) c =
             subscript (m_incomingPacketQueue s) c @ pushed c ops"
  using assms(2)
proof (induction ops arbitrary: s)
  case Nil
  show ?case by (simp add: perform_all_def)
next
  case (Cons op ops)
  let ?R = "recording E" and ?h = "observed_hook h"
  let ?s1 = "perform ?R ?h op s"
  let ?sf = "perform_all ?R ?h (op # ops) s"
  from Cons.prems have "\<forall>op\<in>set ops. queue_traffic op" and traffic: "queue_traffic op" by simp_all
  from Cons.IH [OF this(1), of ?s1] obtain e2 where
    ev2: "snd (m_worldServer ?sf) = snd (m_worldServer ?s1) @ e2"
    and out2: "pulled ?R ?h c ops ?s1 @ subscript (m_outgoingPacketQueue ?sf) c =
               subscript (m_outgoingPacketQueue ?s1) c @ produced_for c e2"
    and in2: "delivered_for c e2 @ subscript (m_incomingPacketQueue ?sf) c =
              subscript (m_incomingPacketQueue ?s1) c @ pushed c ops"
    by (auto simp: perform_all_def)
  have step: "\<exists>e1. snd (m_worldServer ?s1) = snd (m_worldServer s) @ e1 \<and>
      (if op = PullOutgoing c then fst (pullOutgoingPackets c s) else []) @ subscript (m_outgoingPacketQueue ?s1) c =
        subscript (m_outgoingPacketQueue s) c @ produced_for c e1 \<and>
      delivered_for c e1 @ subscript (m_incomingPacketQueue ?s1) c =
        subscript (m_incomingPacketQueue s) c @ (case op of PushIncoming c' ps \<Rightarrow> (if c' = c then ps else []) | _ \<Rightarrow> [])"
  proof (cases op)
    case (PushIncoming c' ps)
    then show ?thesis
      by (intro exI [of _ "[]"]) (simp add: perform_def pushIncomingPackets_def subscript_appendAll)
  next
    case (PullOutgoing c')
    then show ?thesis
      by (intro exI [of _ "[]"]) (simp add: perform_def pullOutgoingPackets_def take_queue_def subscript_def)
  next
    case (Tick f)
    have "accounted s (snd (update ?R ?h f s))"
      by (rule accounted_update [OF h surjective_pairing])
    then obtain e1 where "snd (m_worldServer (snd (update ?R ?h f s))) = snd (m_worldServer s) @ e1"
      "\<And>c. subscript (m_outgoingPacketQueue (snd (update ?R ?h f s))) c =
            subscript (m_outgoingPacketQueue s) c @ produced_for c e1"
      "\<And>c. subscript (m_incomingPacketQueue s) c =
            delivered_for c e1 @ subscript (m_incomingPacketQueue (snd (update ?R ?h f s))) c"
      unfolding accounted_def by blast
    with Tick show ?thesis
      by (intro exI [of _ e1]) (simp add: perform_def)
  next
    case (SetPause p)
    then show ?thesis
      by (intro exI [of _ "[]"]) (simp add: perform_def setPause_def)
  next
    case (AddClient c' t l)
    with traffic show ?thesis by (simp add: queue_traffic_def)
  next
    case (RemoveClient c')
    with traffic show ?thesis by (simp add: queue_traffic_def)
  qed
  then obtain e1 where
    ev1: "snd (m_worldServer ?s1) = snd (m_worldServer s) @ e1"
    and out1: "(if op = PullOutgoing c then fst (pullOutgoingPackets c s) else []) @
               subscript (m_outgoingPacketQueue ?s1) c =
               subscript (m_outgoingPacketQueue s) c @ produced_for c e1"
    and in1: "delivered_for c e1 @ subscript (m_incomingPacketQueue ?s1) c =
              subscript (m_incomingPacketQueue s) c @
              (case op of PushIncoming c' ps \<Rightarrow> (if c' = c then ps else []) | _ \<Rightarrow> [])"
    by blast
  have "pulled ?R ?h c (op # ops) s @ subscript (m_outgoingPacketQueue ?sf) c =
        (if op = PullOutgoing c then fst (pullOutgoingPackets c s) else []) @
        (pulled ?R ?h c ops ?s1 @ subscript (m_outgoingPacketQueue ?sf) c)"
    by simp
  also have "\<dots> = ((if op = PullOutgoing c then fst (pullOutgoingPackets c s) else []) @
                   subscript (m_outgoingPacketQueue ?s1) c) @ produced_for c e2"
    by (simp only: out2 append_assoc)
  also have "\<dots> = subscript (m_outgoingPacketQueue s) c @ produced_for c (e1 @ e2)"
    by (simp only: out1 append_assoc produced_for_append)
  finally have out: "pulled ?R ?h c (op # ops) s @ subscript (m_outgoingPacketQueue ?sf) c =
      subscript (m_outgoingPacketQueue s) c @ produced_for c (e1 @ e2)" .
  have "delivered_for c (e1 @ e2) @ subscript (m_incomingPacketQueue ?sf) c =
        delivered_for c e1 @ (delivered_for c e2 @ subscript (m_incomingPacketQueue ?sf) c)"
    by (simp add: delivered_for_append)
  also have "\<dots> = (delivered_for c e1 @ subscript (m_incomingPacketQueue ?s1) c) @ pushed c ops"
    by (simp only: in2 append_assoc)
  also have "\<dots> = subscript (m_incomingPacketQueue s) c @ pushed c (op # ops)"
    by (simp only: in1 append_assoc pushed.simps)
  finally have inc: "delivered_for c (e1 @ e2) @ subscript (m_incomingPacketQueue ?sf) c =
      subscript (m_incomingPacketQueue s) c @ pushed c (op # ops)" .
  from ev1 ev2 have "snd (m_worldServer ?sf) = snd (m_worldServer s) @ (e1 @ e2)" by simp
  with out inc show ?case by blast
qed

subsection \<open>The record does not change what the host does\<close>

lemma unobserved_sel:
  "m_worldServer (unobserved s) = fst (m_worldServer s)"
  "m_clients (unobserved s) = m_clients s"
  "m_incomingPacketQueue (unobserved s) = m_incomingPacketQueue s"
  "m_outgoingPacketQueue (unobserved s) = m_outgoingPacketQueue s"
  "m_pause (unobserved s) = m_pause s"
  "logger (unobserved s) = logger s"
  by (simp_all add: unobserved_def)

lemma unobserved_upd:
  "unobserved (s\<lparr>m_incomingPacketQueue := q\<rparr>) = (unobserved s)\<lparr>m_incomingPacketQueue := q\<rparr>"
  "unobserved (s\<lparr>m_outgoingPacketQueue := q\<rparr>) = (unobserved s)\<lparr>m_outgoingPacketQueue := q\<rparr>"
  "unobserved (s\<lparr>logger := l\<rparr>) = (unobserved s)\<lparr>logger := l\<rparr>"
  "unobserved (s\<lparr>m_pause := p\<rparr>) = (unobserved s)\<lparr>m_pause := p\<rparr>"
  "unobserved (s\<lparr>m_worldServer := x\<rparr>) = (unobserved s)\<lparr>m_worldServer := fst x\<rparr>"
  by (simp_all add: unobserved_def)

lemma recorded_fst:
  "fst (recorded c result x) = fst result" "fst (snd (recorded c result x)) = snd result"
  by (auto simp: recorded_def split: prod.splits outcome.splits)

lemma plain_engine_call:
  assumes "\<And>x. fst (g x) = fst (f (fst x))" and "\<And>x. fst (snd (g x)) = snd (f (fst x))"
  shows "engine_call f (unobserved s) = (case engine_call g s of (r, s') \<Rightarrow> (r, unobserved s'))"
  using assms [of "m_worldServer s"]
  by (auto simp: engine_call_def unobserved_sel unobserved_upd split: prod.splits)

lemma plain_call:
  assumes "\<And>x. fst (g x) = fst (f (fst x))" and "\<And>x. fst (snd (g x)) = snd (f (fst x))"
    and "engine_call g s = (r, s')"
  shows "engine_call f (unobserved s) = (r, unobserved s')"
  using plain_engine_call [of g f s, OF assms(1,2)] assms(3) by simp

lemma plain_handleIncomingPackets:
  "engine_call (\<lambda>x. ws_handleIncomingPackets (recording E) x c ps) s = (r, s') \<Longrightarrow>
   engine_call (\<lambda>w. ws_handleIncomingPackets E w c ps) (unobserved s) = (r, unobserved s')"
  by (rule plain_call [where g = "\<lambda>x. ws_handleIncomingPackets (recording E) x c ps"])
     (simp_all add: recording_sel recorded_fst unrecorded_def)

lemma plain_removeClient:
  "engine_call (\<lambda>x. ws_removeClient (recording E) x c) s = (r, s') \<Longrightarrow>
   engine_call (\<lambda>w. ws_removeClient E w c) (unobserved s) = (r, unobserved s')"
  by (rule plain_call [where g = "\<lambda>x. ws_removeClient (recording E) x c"])
     (simp_all add: recording_sel recorded_fst unrecorded_def)

lemma plain_getOutgoingPackets:
  "engine_call (\<lambda>x. ws_getOutgoingPackets (recording E) x c) s = (r, s') \<Longrightarrow>
   engine_call (\<lambda>w. ws_getOutgoingPackets E w c) (unobserved s) = (r, unobserved s')"
  by (rule plain_call [where g = "\<lambda>x. ws_getOutgoingPackets (recording E) x c"])
     (simp_all add: recording_sel recorded_fst unrecorded_def)

lemma plain_setFidelity:
  "engine_call (\<lambda>x. ws_setFidelity (recording E) x f) s = (r, s') \<Longrightarrow>
   engine_call (\<lambda>w. ws_setFidelity E w f) (unobserved s) = (r, unobserved s')"
  by (rule plain_call [where g = "\<lambda>x. ws_setFidelity (recording E) x f"])
     (simp_all add: recording_sel recorded_fst unrecorded_def)

lemma plain_ws_update:
  "engine_call (ws_update (recording E)) s = (r, s') \<Longrightarrow>
   engine_call (ws_update E) (unobserved s) = (r, unobserved s')"
  by (rule plain_call [where g = "ws_update (recording E)"])
     (simp_all add: recording_sel recorded_fst unrecorded_def)

lemma plain_deliverOne:
  assumes run: "deliverOne (recording E) c ids s = (r, ids', s')"
  shows "deliverOne E c ids (unobserved s) = (r, ids', unobserved s')"
proof -
  let ?ps = "subscript (m_incomingPacketQueue s) c"
  let ?s1 = "s\<lparr>m_incomingPacketQueue := (m_incomingPacketQueue s)(c \<mapsto> [])\<rparr>"
  obtain r2 s2 where c1: "engine_call (\<lambda>x. ws_handleIncomingPackets (recording E) x c ?ps) ?s1 = (r2, s2)"
    by fastforce
  from plain_handleIncomingPackets [OF c1]
  have p1: "engine_call (\<lambda>w. ws_handleIncomingPackets E w c ?ps)
              ((unobserved s)\<lparr>m_incomingPacketQueue := (m_incomingPacketQueue s)(c \<mapsto> [])\<rparr>) = (r2, unobserved s2)"
    by (simp add: unobserved_upd)
  show ?thesis
  proof (cases r2)
    case (Returned u)
    with run c1 have "r = Returned ()" "ids' = ids" "s' = s2"
      by (auto simp: deliverOne_def take_queue_def Let_def)
    with p1 Returned show ?thesis
      by (simp add: deliverOne_def take_queue_def Let_def unobserved_sel)
  next
    case (Raised e)
    let ?s4 = "s2\<lparr>logger := logger s2 @ [ExceptionCaughtHandling c e],
                  m_outgoingPacketQueue := touch (m_outgoingPacketQueue s2) c\<rparr>"
    obtain r5 s5 where c2: "engine_call (\<lambda>x. ws_removeClient (recording E) x c) ?s4 = (r5, s5)"
      by fastforce
    from plain_removeClient [OF c2]
    have p2: "engine_call (\<lambda>w. ws_removeClient E w c)
                ((unobserved s2)\<lparr>logger := logger s2 @ [ExceptionCaughtHandling c e],
                  m_outgoingPacketQueue := touch (m_outgoingPacketQueue s2) c\<rparr>) = (r5, unobserved s5)"
      by (simp add: unobserved_upd)
    show ?thesis
    proof (cases r5)
      case (Returned final)
      with run c1 c2 Raised have "r = Returned ()" "ids' = list_remove c ids"
        "s' = s5\<lparr>m_outgoingPacketQueue := appendAll (m_outgoingPacketQueue s5) c final\<rparr>"
        by (auto simp: deliverOne_def take_queue_def Let_def)
      with p1 p2 Raised Returned show ?thesis
        by (simp add: deliverOne_def take_queue_def Let_def unobserved_sel unobserved_upd)
    next
      case (Raised e')
      with run c1 c2 \<open>r2 = Raised e\<close> have "r = Raised e'" "ids' = ids" "s' = s5"
        by (auto simp: deliverOne_def take_queue_def Let_def)
      with p1 p2 Raised \<open>r2 = Raised e\<close> show ?thesis
        by (simp add: deliverOne_def take_queue_def Let_def unobserved_sel unobserved_upd)
    qed
  qed
qed

lemma plain_deliverIncoming:
  "deliverIncoming (recording E) n i ids s = (r, ids', s') \<Longrightarrow>
   deliverIncoming E n i ids (unobserved s) = (r, ids', unobserved s')"
proof (induction k \<equiv> "n - i" arbitrary: i ids s)
  case 0
  then have "\<not> i < n" by simp
  with "0.prems" show ?case
    by (simp add: deliverIncoming.simps [of _ n i])
next
  case (Suc k)
  then have lt: "i < n" and k: "k = n - Suc i" by simp_all
  obtain r1 ids1 s1 where one: "deliverOne (recording E) (fst ids ! i) ids s = (r1, ids1, s1)"
    by (cases "deliverOne (recording E) (fst ids ! i) ids s") auto
  note p = plain_deliverOne [OF one]
  show ?case
  proof (cases r1)
    case (Returned u)
    with Suc.prems lt one have "deliverIncoming (recording E) n (Suc i) ids1 s1 = (r, ids', s')"
      by (simp add: deliverIncoming.simps [of _ n i])
    from Suc.hyps(1) [OF k this] p lt Returned show ?thesis
      by (simp add: deliverIncoming.simps [of _ n i])
  next
    case (Raised e)
    with Suc.prems lt one have "r = Raised e" "ids' = ids1" "s' = s1"
      by (simp_all add: deliverIncoming.simps [of _ n i])
    with p lt Raised show ?thesis
      by (simp add: deliverIncoming.simps [of _ n i])
  qed
qed

lemma plain_collectOutgoing:
  "collectOutgoing (recording E) cs s = (r, s') \<Longrightarrow>
   collectOutgoing E cs (unobserved s) = (r, unobserved s')"
proof (induction cs arbitrary: s)
  case Nil
  then show ?case by simp
next
  case (Cons c cs)
  obtain r1 s1 where one: "engine_call (\<lambda>x. ws_getOutgoingPackets (recording E) x c) s = (r1, s1)"
    by fastforce
  note p = plain_getOutgoingPackets [OF one]
  show ?case
  proof (cases r1)
    case (Returned ps)
    with Cons.prems one have
      "collectOutgoing (recording E) cs
         (s1\<lparr>m_outgoingPacketQueue := appendAll (m_outgoingPacketQueue s1) c ps\<rparr>) = (r, s')"
      by simp
    from Cons.IH [OF this] p Returned show ?thesis
      by (simp add: unobserved_upd unobserved_sel)
  next
    case (Raised e)
    with Cons.prems one p show ?thesis by auto
  qed
qed

lemma plain_updateUnlessPaused:
  "updateUnlessPaused (recording E) s = (r, s') \<Longrightarrow>
   updateUnlessPaused E (unobserved s) = (r, unobserved s')"
  by (auto simp: updateUnlessPaused_def unobserved_sel intro: plain_ws_update split: if_splits)

lemma plain_hook:
  "(case observed_hook h of None \<Rightarrow> (Returned (), s) | Some action \<Rightarrow> action s) = (r, s') \<Longrightarrow>
   (case h of None \<Rightarrow> (Returned (), unobserved s) | Some action \<Rightarrow> action (unobserved s)) = (r, unobserved s')"
  by (cases h) (auto simp: observed_hook_def observed_action_def unobserved_observe split: prod.splits)

lemma plain_update:
  assumes run: "update (recording E) (observed_hook h) f s = (r, s')"
  shows "update E h f (unobserved s) = (r, unobserved s')"
proof -
  let ?ids = "ws_clientIds E (fst (m_worldServer s))"
  have ids: "ws_clientIds (recording E) (m_worldServer s) = ?ids"
    by (simp add: recording_sel)
  obtain r1 v1 s1 where d: "deliverIncoming (recording E) (length ?ids) 0 (?ids, length ?ids) s = (r1, v1, s1)"
    by (cases "deliverIncoming (recording E) (length ?ids) 0 (?ids, length ?ids) s") auto
  note pd = plain_deliverIncoming [OF d]
  show ?thesis
  proof (cases r1)
    case (Raised e)
    with run d ids pd show ?thesis
      by (auto simp: update_def Let_def unobserved_sel)
  next
    case r1: (Returned u1)
    obtain r2 s2 where f: "engine_call (\<lambda>x. ws_setFidelity (recording E) x f) s1 = (r2, s2)"
      by fastforce
    note pf = plain_setFidelity [OF f]
    show ?thesis
    proof (cases r2)
      case (Raised e)
      with run d ids pd r1 f pf show ?thesis
        by (auto simp: update_def Let_def unobserved_sel)
    next
      case r2: (Returned u2)
      obtain r3 s3 where u: "updateUnlessPaused (recording E) s2 = (r3, s3)"
        by fastforce
      note pu = plain_updateUnlessPaused [OF u]
      show ?thesis
      proof (cases r3)
        case (Raised e)
        with run d ids pd r1 f pf r2 u pu show ?thesis
          by (auto simp: update_def Let_def unobserved_sel)
      next
        case r3: (Returned u3)
        obtain r4 s4 where c: "collectOutgoing (recording E) (elements v1) s3 = (r4, s4)"
          by fastforce
        note pc = plain_collectOutgoing [OF c]
        show ?thesis
        proof (cases r4)
          case (Raised e)
          with run d ids pd r1 f pf r2 u pu r3 c pc show ?thesis
            by (auto simp: update_def Let_def unobserved_sel)
        next
          case r4: (Returned u4)
          with run d ids r1 f r2 u r3 c have
            "(case observed_hook h of None \<Rightarrow> (Returned (), s4) | Some action \<Rightarrow> action s4) = (r, s')"
            by (simp add: update_def Let_def)
          from plain_hook [OF this] d ids pd r1 f pf r2 u pu r3 c pc r4 show ?thesis
            by (simp add: update_def Let_def unobserved_sel)
        qed
      qed
    qed
  qed
qed

lemma plain_perform:
  assumes "queue_traffic op"
  shows "perform E h op (unobserved s) = unobserved (perform (recording E) (observed_hook h) op s)"
proof (cases op)
  case (Tick f)
  from plain_update [OF surjective_pairing, of E h f s] show ?thesis
    by (simp add: Tick perform_def)
qed (use assms in \<open>simp_all add: perform_def queue_traffic_def pushIncomingPackets_def
       pullOutgoingPackets_def setPause_def take_queue_def unobserved_sel unobserved_upd\<close>)

lemma plain_perform_all:
  assumes "\<forall>op\<in>set ops. queue_traffic op"
  shows "perform_all E h ops (unobserved s) = unobserved (perform_all (recording E) (observed_hook h) ops s)"
  using assms
proof (induction ops arbitrary: s)
  case Nil
  show ?case by (simp add: perform_all_def)
next
  case (Cons op ops)
  then have "queue_traffic op" and rest: "\<forall>op\<in>set ops. queue_traffic op" by simp_all
  from plain_perform [OF this(1), of E h s] Cons.IH [OF rest, of "perform (recording E) (observed_hook h) op s"]
  show ?case by (simp add: perform_all_def)
qed

lemma plain_pulled:
  assumes "\<forall>op\<in>set ops. queue_traffic op"
  shows "pulled E h c ops (unobserved s) = pulled (recording E) (observed_hook h) c ops s"
  using assms
proof (induction ops arbitrary: s)
  case Nil
  show ?case by simp
next
  case (Cons op ops)
  then have "queue_traffic op" and rest: "\<forall>op\<in>set ops. queue_traffic op" by simp_all
  from plain_perform [OF this(1), of E h s] Cons.IH [OF rest, of "perform (recording E) (observed_hook h) op s"]
  show ?case by (simp add: pullOutgoingPackets_def take_queue_def unobserved_sel)
qed


text \<open>
  C8. For every client id and every history of pushes, pulls, ticks and changes of the
  pause flag (with no update action, or with one that works on the engine only), where the
  engine's record of the history lists, in the order of the calls, what the engine's
  \<open>getOutgoingPackets\<close> and \<open>removeClient\<close> returned and what its \<open>handleIncomingPackets\<close> was
  given: what the pulls of the id returned, in the order of the calls, followed by what is
  still in its outgoing queue, is what the queue held at the start followed by the packets
  the engine produced for the id, in the order the engine produced them; what the engine
  was given for the id, followed by what is still in its incoming queue, is what the
  incoming queue held at the start followed by what was pushed for the id, in the order
  of the pushes; one tick leaves in every outgoing queue what it held followed by what the
  engine produced for the id in that tick; the host with the record does what the host
  without it does; a push appends to the incoming queue, a pull returns the whole queue,
  and a pull right after a pull returns nothing.
\<close>

theorem outgoing_fifo:
  assumes "hook_ok E h" and "\<forall>op\<in>set ops. queue_traffic op"
  shows "pulled E h clientId ops s @ subscript (m_outgoingPacketQueue (perform_all E h ops s)) clientId =
           subscript (m_outgoingPacketQueue s) clientId @ produced_for clientId (engine_trace E h ops s) \<and>
         delivered_for clientId (engine_trace E h ops s) @
           subscript (m_incomingPacketQueue (perform_all E h ops s)) clientId =
           subscript (m_incomingPacketQueue s) clientId @ pushed clientId ops \<and>
         subscript (m_outgoingPacketQueue (snd (update E h fidelity s))) clientId =
           subscript (m_outgoingPacketQueue s) clientId @
           produced_for clientId (engine_trace E h [Tick fidelity] s) \<and>
         unobserved (perform_all (recording E) (observed_hook h) ops (observe [] s)) = perform_all E h ops s \<and>
         subscript (m_incomingPacketQueue (pushIncomingPackets clientId packets s)) clientId =
           subscript (m_incomingPacketQueue s) clientId @ packets \<and>
         fst (pullOutgoingPackets clientId s) = subscript (m_outgoingPacketQueue s) clientId \<and>
         fst (pullOutgoingPackets clientId (snd (pullOutgoingPackets clientId s))) = []"
proof -
  let ?R = "recording E" and ?h = "observed_hook h"
  have plain: "perform_all E h ops' s = unobserved (perform_all ?R ?h ops' (observe [] s))"
    and pulls: "pulled E h clientId ops' s = pulled ?R ?h clientId ops' (observe [] s)"
    if "\<forall>op\<in>set ops'. queue_traffic op" for ops'
    using plain_perform_all [OF that, of E h "observe [] s"]
      plain_pulled [OF that, of E h clientId "observe [] s"]
    by (simp_all add: unobserved_observe)
  have history: "pulled E h clientId ops' s @ subscript (m_outgoingPacketQueue (perform_all E h ops' s)) clientId =
           subscript (m_outgoingPacketQueue s) clientId @ produced_for clientId (engine_trace E h ops' s) \<and>
         delivered_for clientId (engine_trace E h ops' s) @
           subscript (m_incomingPacketQueue (perform_all E h ops' s)) clientId =
           subscript (m_incomingPacketQueue s) clientId @ pushed clientId ops'"
    if traffic: "\<forall>op\<in>set ops'. queue_traffic op" for ops'
  proof -
    from accounted_history [OF assms(1) traffic, of "observe [] s" clientId]
    obtain events where
      "snd (m_worldServer (perform_all ?R ?h ops' (observe [] s))) = snd (m_worldServer (observe [] s)) @ events"
      "pulled ?R ?h clientId ops' (observe [] s) @
         subscript (m_outgoingPacketQueue (perform_all ?R ?h ops' (observe [] s))) clientId =
         subscript (m_outgoingPacketQueue (observe [] s)) clientId @ produced_for clientId events"
      "delivered_for clientId events @
         subscript (m_incomingPacketQueue (perform_all ?R ?h ops' (observe [] s))) clientId =
         subscript (m_incomingPacketQueue (observe [] s)) clientId @ pushed clientId ops'"
      by blast
    then show ?thesis
      by (simp add: engine_trace_def plain [OF traffic] pulls [OF traffic] unobserved_sel observe_def)
  qed
  have tick: "\<forall>op\<in>set [Tick fidelity]. queue_traffic op"
    by (simp add: queue_traffic_def)
  have "subscript (m_outgoingPacketQueue (snd (update E h fidelity s))) clientId =
           subscript (m_outgoingPacketQueue s) clientId @
           produced_for clientId (engine_trace E h [Tick fidelity] s)"
    using history [OF tick] by (simp add: perform_all_def perform_def)
  moreover have "subscript (m_incomingPacketQueue (pushIncomingPackets clientId packets s)) clientId =
           subscript (m_incomingPacketQueue s) clientId @ packets"
    by (simp add: pushIncomingPackets_def subscript_appendAll)
  moreover have "fst (pullOutgoingPackets clientId s) = subscript (m_outgoingPacketQueue s) clientId"
    by (simp add: pullOutgoingPackets_def take_queue_def)
  moreover have "fst (pullOutgoingPackets clientId (snd (pullOutgoingPackets clientId s))) = []"
    by (simp add: pullOutgoingPackets_def take_queue_def subscript_def)
  ultimately show ?thesis
    using history [OF assms(2)] plain [OF assms(2)] by simp
qed

text \<open>
  An instance on \<open>hostA\<close>, for client 2, whose incoming queue holds 21 and 22, and whose
  neighbour 1 is isolated in the first tick, so that client 2 is served from the second
  tick on: the engine returns for client 2 what it was given so far, nothing in the first
  tick, \<open>[21, 22, 23]\<close> in the second and \<open>[21, 22, 23, 24]\<close> in the third; the pulls return
  \<open>[21, 22, 23]\<close> and then nothing, and the queue holds \<open>[21, 22, 23, 24]\<close> at the end.
\<close>

theorem outgoing_fifo_witness:
  "hook_ok echoEngine None \<and>
   list_all queue_traffic
     [PushIncoming 2 [23], Tick Medium, Tick Low, PullOutgoing 2, PullOutgoing 2, PushIncoming 2 [24], Tick High] \<and>
   engine_trace echoEngine None
     [PushIncoming 2 [23], Tick Medium, Tick Low, PullOutgoing 2, PullOutgoing 2, PushIncoming 2 [24], Tick High] hostA =
     [Delivered 1 [0], Produced 1 [1001], Delivered 3 [31], Delivered 3 [],
      Produced 2 [], Produced 3 [31],
      Delivered 2 [21, 22, 23], Delivered 3 [], Produced 2 [21, 22, 23], Produced 3 [31],
      Delivered 2 [24], Delivered 3 [], Produced 2 [21, 22, 23, 24], Produced 3 [31]] \<and>
   subscript (m_outgoingPacketQueue hostA) 2 = [] \<and>
   subscript (m_incomingPacketQueue hostA) 2 = [21, 22] \<and>
   pulled echoEngine None 2
     [PushIncoming 2 [23], Tick Medium, Tick Low, PullOutgoing 2, PullOutgoing 2, PushIncoming 2 [24], Tick High] hostA
     = [21, 22, 23] \<and>
   subscript (m_outgoingPacketQueue (perform_all echoEngine None
         [PushIncoming 2 [23], Tick Medium, Tick Low, PullOutgoing 2, PullOutgoing 2, PushIncoming 2 [24], Tick High] hostA)) 2
     = [21, 22, 23, 24] \<and>
   subscript (m_incomingPacketQueue (perform_all echoEngine None
         [PushIncoming 2 [23], Tick Medium, Tick Low, PullOutgoing 2, PullOutgoing 2, PushIncoming 2 [24], Tick High] hostA)) 2
     = []"
proof -
  let ?ops = "[PushIncoming 2 [23], Tick Medium, Tick Low, PullOutgoing 2, PullOutgoing 2, PushIncoming 2 [24], Tick High]"
  have a: "hook_ok echoEngine None"
    by (simp add: hook_ok_def)
  have b: "\<forall>op\<in>set ?ops. queue_traffic op"
    by (simp add: queue_traffic_def)
  have c: "subscript (m_outgoingPacketQueue hostA) 2 = []" "subscript (m_incomingPacketQueue hostA) 2 = [21, 22]"
    by (simp_all add: hostA_def subscript_def)
  have d: "engine_trace echoEngine None ?ops hostA =
     [Delivered 1 [0], Produced 1 [1001], Delivered 3 [31], Delivered 3 [],
      Produced 2 [], Produced 3 [31],
      Delivered 2 [21, 22, 23], Delivered 3 [], Produced 2 [21, 22, 23], Produced 3 [31],
      Delivered 2 [24], Delivered 3 [], Produced 2 [21, 22, 23, 24], Produced 3 [31]]"
    by (simp add: engine_trace_def perform_all_def perform_def pushIncomingPackets_def
        pullOutgoingPackets_def setPause_def observed_hook_def observe_def recording_def
        recorded_def unrecorded_def tick_eval echo_eval hostA_def)
  have e: "pulled echoEngine None 2 ?ops hostA = [21, 22, 23]"
    "subscript (m_outgoingPacketQueue (perform_all echoEngine None ?ops hostA)) 2 = [21, 22, 23, 24]"
    by (simp_all add: perform_all_def perform_def pushIncomingPackets_def
        pullOutgoingPackets_def setPause_def tick_eval echo_eval hostA_def)
  from outgoing_fifo [OF a b, of 2 hostA] c d
  have f: "subscript (m_incomingPacketQueue (perform_all echoEngine None ?ops hostA)) 2 = []"
    by simp
  from a c d e f show ?thesis
    by (simp add: queue_traffic_def)
qed

section \<open>A client isolated by a tick\<close>

lemma keeps_removed_removal:
  assumes "keeps_removed E c" and "engine_call (\<lambda>w. ws_removeClient E w c) s = (Returned final, s')"
  shows "c \<notin> set (ws_clientIds E (m_worldServer s'))"
  using assms(1) engine_call_state(2) [OF assms(2)]
  unfolding keeps_removed_def by blast

lemma keeps_removedD:
  assumes "keeps_removed E c" and "c \<notin> set (ws_clientIds E w)"
  shows "c \<notin> set (ws_clientIds E (snd (ws_handleIncomingPackets E w c' ps)))"
    and "c \<notin> set (ws_clientIds E (snd (ws_removeClient E w c')))"
    and "c \<notin> set (ws_clientIds E (snd (ws_getOutgoingPackets E w c')))"
    and "c \<notin> set (ws_clientIds E (snd (ws_setFidelity E w fidelity)))"
    and "c \<notin> set (ws_clientIds E (snd (ws_update E w)))"
    and "c' \<noteq> c \<Longrightarrow> c \<notin> set (ws_clientIds E (snd (ws_addClient E w c' t l)))"
  using assms unfolding keeps_removed_def by blast+

lemma deliverOne_keeps_removed:
  assumes k: "keeps_removed E c" and out: "c \<notin> set (ws_clientIds E (m_worldServer s))"
    and one: "deliverOne E c' ids s = (r, ids', s')"
  shows "c \<notin> set (ws_clientIds E (m_worldServer s'))"
  using one
proof (cases rule: deliverOne_cases)
  case (delivered u)
  from engine_call_engine [OF delivered(1)] keeps_removedD(1) [OF k out] show ?thesis
    by simp
next
  case (removal_raised e s2 e')
  from engine_call_engine [OF removal_raised(1)] keeps_removedD(1) [OF k out]
  have "c \<notin> set (ws_clientIds E (m_worldServer s2))" by simp
  from engine_call_engine [OF removal_raised(2)] keeps_removedD(2) [OF k this] show ?thesis
    by simp
next
  case (isolated e s2 final s5)
  from engine_call_engine [OF isolated(1)] keeps_removedD(1) [OF k out]
  have "c \<notin> set (ws_clientIds E (m_worldServer s2))" by simp
  from engine_call_engine [OF isolated(2)] keeps_removedD(2) [OF k this]
  have "c \<notin> set (ws_clientIds E (m_worldServer s5))" by simp
  with isolated(3) show ?thesis by simp
qed

lemma update_keeps_removed:
  assumes k: "keeps_removed E c" and h: "hook_ok E h"
    and run: "update E h f s = (r, s')"
    and out: "c \<notin> set (ws_clientIds E (m_worldServer s))"
  shows "c \<notin> set (ws_clientIds E (m_worldServer s'))"
  using run out
proof (rule update_rule)
  fix c' ids1 s1 r2 ids2 s2
  assume "c \<notin> set (ws_clientIds E (m_worldServer s1))" and "deliverOne E c' ids1 s1 = (r2, ids2, s2)"
  with k show "c \<notin> set (ws_clientIds E (m_worldServer s2))"
    by (rule deliverOne_keeps_removed)
next
  fix s1 r2 s2
  assume o: "c \<notin> set (ws_clientIds E (m_worldServer s1))"
    and e: "engine_call (\<lambda>w. ws_setFidelity E w f) s1 = (r2, s2)"
  from engine_call_engine [OF e] keeps_removedD(4) [OF k o]
  show "c \<notin> set (ws_clientIds E (m_worldServer s2))" by simp
next
  fix s1 r2 s2
  assume o: "c \<notin> set (ws_clientIds E (m_worldServer s1))"
    and e: "engine_call (ws_update E) s1 = (r2, s2)"
  from engine_call_engine [OF e] keeps_removedD(5) [OF k o]
  show "c \<notin> set (ws_clientIds E (m_worldServer s2))" by simp
next
  fix c' s1 r2 s2
  assume o: "c \<notin> set (ws_clientIds E (m_worldServer s1))"
    and e: "engine_call (\<lambda>w. ws_getOutgoingPackets E w c') s1 = (r2, s2)"
  from engine_call_engine [OF e] keeps_removedD(3) [OF k o]
  show "c \<notin> set (ws_clientIds E (m_worldServer s2))" by simp
next
  fix c' ps s1
  assume "c \<notin> set (ws_clientIds E (m_worldServer s1))"
  then show "c \<notin> set (ws_clientIds E (m_worldServer
      (s1\<lparr>m_outgoingPacketQueue := appendAll (m_outgoingPacketQueue s1) c' ps\<rparr>)))"
    by simp
next
  fix action s1 r2 s2
  assume o: "c \<notin> set (ws_clientIds E (m_worldServer s1))" and "h = Some action" and "action s1 = (r2, s2)"
  with h obtain w where "s2 = s1\<lparr>m_worldServer := w\<rparr>"
    and "ws_clientIds E w = ws_clientIds E (m_worldServer s1)"
    by (auto elim: hook_effect)
  with o show "c \<notin> set (ws_clientIds E (m_worldServer s2))" by simp
qed

lemma parked_frame:
  assumes "parked E c s" and "tick_frame s s'" and "c \<notin> set (ws_clientIds E (m_worldServer s'))"
  shows "parked E c s'"
  using assms by (auto simp: parked_def tick_frame_def)

lemma deliverOne_parked:
  assumes "keeps_removed E c" and "parked E c s" and "deliverOne E c' ids s = (r, ids', s')"
  shows "parked E c s'"
proof -
  from assms(2) have "c \<notin> set (ws_clientIds E (m_worldServer s))"
    by (simp add: parked_def)
  with assms(1) have "c \<notin> set (ws_clientIds E (m_worldServer s'))"
    using assms(3) by (rule deliverOne_keeps_removed)
  with assms(2) tick_frame_deliverOne [OF assms(3)] show ?thesis
    by (rule parked_frame)
qed

lemma engine_call_parked:
  assumes "parked E c s" and "engine_call f s = (r, s')"
    and "c \<notin> set (ws_clientIds E (snd (f (m_worldServer s))))"
  shows "parked E c s'"
  using assms engine_call_rest [OF assms(2)] engine_call_engine [OF assms(2)]
  by (simp add: parked_def)

lemma deliverOne_logged:
  assumes k: "keeps_removed E c"
    and p: "isolation_logged E c s0 s"
    and one: "deliverOne E c' ids s = (Returned u, ids', s')"
  shows "isolation_logged E c s0 s'"
proof -
  from p obtain l where l: "logger s = logger s0 @ l"
    and q: "(\<exists>e. ExceptionCaughtHandling c e \<in> set l) \<Longrightarrow> parked E c s"
    unfolding isolation_logged_def by blast
  from one show ?thesis
  proof (cases rule: deliverOne_cases)
    case (delivered u')
    from engine_call_rest(1) [OF delivered(1)] l have "logger s' = logger s0 @ l"
      by simp
    moreover have "parked E c s'" if "\<exists>e. ExceptionCaughtHandling c e \<in> set l"
      using k q [OF that] one by (rule deliverOne_parked)
    ultimately show ?thesis
      unfolding isolation_logged_def by blast
  next
    case (removal_raised e s2 e')
    then show ?thesis by simp
  next
    case (isolated e s2 final s5)
    have log: "logger s' = logger s0 @ (l @ [ExceptionCaughtHandling c' e])"
      using engine_call_rest(1) [OF isolated(1)] engine_call_rest(1) [OF isolated(2)] isolated(3) l
      by simp
    have "parked E c s'" if new: "\<exists>e'. ExceptionCaughtHandling c e' \<in> set (l @ [ExceptionCaughtHandling c' e])"
    proof (cases "c' = c")
      case True
      have "c \<in> dom (m_incomingPacketQueue s')"
        using engine_call_rest(2) [OF isolated(1)] engine_call_rest(2) [OF isolated(2)] isolated(3) True
        by simp
      moreover have "c \<in> dom (m_outgoingPacketQueue s')"
        using isolated(3) True by (simp add: dom_appendAll)
      moreover have "c \<notin> set (ws_clientIds E (m_worldServer s5))"
        using k isolated(2) [unfolded True] by (rule keeps_removed_removal)
      ultimately show ?thesis
        using isolated(3) by (simp add: parked_def)
    next
      case False
      with new have "\<exists>e'. ExceptionCaughtHandling c e' \<in> set l" by auto
      from k q [OF this] one show ?thesis by (rule deliverOne_parked)
    qed
    with log show ?thesis
      unfolding isolation_logged_def by blast
  qed
qed

lemma isolation_logged_same_log:
  assumes "isolation_logged E c s0 s" and "logger s' = logger s"
    and "parked E c s \<Longrightarrow> parked E c s'"
  shows "isolation_logged E c s0 s'"
  using assms unfolding isolation_logged_def by auto

lemma update_logged:
  assumes k: "keeps_removed E c" and h: "hook_ok E h"
    and run: "update E h f s = (Returned u, s')"
  shows "isolation_logged E c s s'"
proof -
  have start: "isolation_logged E c s s"
    by (simp add: isolation_logged_def)
  from run start show ?thesis
  proof (rule update_rule)
    fix c' ids1 s1 r2 ids2 s2
    assume "isolation_logged E c s s1" and "deliverOne E c' ids1 s1 = (r2, ids2, s2)"
      and "r2 = Returned () \<or> r2 = Returned u"
    with k show "isolation_logged E c s s2"
      by (auto intro: deliverOne_logged)
  next
    fix s1 r2 s2
    assume p: "isolation_logged E c s s1"
      and e: "engine_call (\<lambda>w. ws_setFidelity E w f) s1 = (r2, s2)"
    from p engine_call_rest(1) [OF e] show "isolation_logged E c s s2"
    proof (rule isolation_logged_same_log)
      assume q: "parked E c s1"
      then have "c \<notin> set (ws_clientIds E (m_worldServer s1))" by (simp add: parked_def)
      from q e keeps_removedD(4) [OF k this] show "parked E c s2" by (rule engine_call_parked)
    qed
  next
    fix s1 r2 s2
    assume p: "isolation_logged E c s s1"
      and e: "engine_call (ws_update E) s1 = (r2, s2)"
    from p engine_call_rest(1) [OF e] show "isolation_logged E c s s2"
    proof (rule isolation_logged_same_log)
      assume q: "parked E c s1"
      then have "c \<notin> set (ws_clientIds E (m_worldServer s1))" by (simp add: parked_def)
      from q e keeps_removedD(5) [OF k this] show "parked E c s2" by (rule engine_call_parked)
    qed
  next
    fix c' s1 r2 s2
    assume p: "isolation_logged E c s s1"
      and e: "engine_call (\<lambda>w. ws_getOutgoingPackets E w c') s1 = (r2, s2)"
    from p engine_call_rest(1) [OF e] show "isolation_logged E c s s2"
    proof (rule isolation_logged_same_log)
      assume q: "parked E c s1"
      then have "c \<notin> set (ws_clientIds E (m_worldServer s1))" by (simp add: parked_def)
      from q e keeps_removedD(3) [OF k this] show "parked E c s2" by (rule engine_call_parked)
    qed
  next
    fix c' ps s1
    assume p: "isolation_logged E c s s1"
    then show "isolation_logged E c s (s1\<lparr>m_outgoingPacketQueue := appendAll (m_outgoingPacketQueue s1) c' ps\<rparr>)"
      by (rule isolation_logged_same_log) (simp_all add: parked_def dom_appendAll)
  next
    fix action s1 r2 s2
    assume p: "isolation_logged E c s s1" and "h = Some action" and "action s1 = (r2, s2)"
    with h obtain w where s2: "s2 = s1\<lparr>m_worldServer := w\<rparr>"
      and ids: "ws_clientIds E w = ws_clientIds E (m_worldServer s1)"
      by (auto elim: hook_effect)
    from p show "isolation_logged E c s s2"
      by (rule isolation_logged_same_log) (simp_all add: s2 ids parked_def)
  qed
qed

lemma addClient_engine:
  "m_worldServer (snd (addClient E c t l s)) = snd (ws_addClient E (m_worldServer s) c t l)"
  by (auto simp: addClient_def try_catch_def caught_def engine_call_def split: prod.splits outcome.splits)

lemma removeClient_try_keeps_removed:
  assumes k: "keeps_removed E c" and out: "c \<notin> set (ws_clientIds E (m_worldServer s))"
    and t: "removeClient_try E c' s = (r, packets, s')"
  shows "c \<notin> set (ws_clientIds E (m_worldServer s'))"
proof -
  let ?w = "m_worldServer s"
  let ?w1 = "snd (ws_handleIncomingPackets E ?w c' (subscript (m_incomingPacketQueue s) c'))"
  have w1: "c \<notin> set (ws_clientIds E ?w1)"
    by (rule keeps_removedD(1) [OF k out])
  have "m_worldServer s' = ?w \<or> m_worldServer s' = ?w1 \<or>
        m_worldServer s' = snd (ws_removeClient E ?w c') \<or>
        m_worldServer s' = snd (ws_removeClient E ?w1 c')"
    using t
    by (auto simp: removeClient_try_def take_queue_def engine_call_def Let_def
        split: prod.splits outcome.splits if_splits)
  with out w1 keeps_removedD(2) [OF k out] keeps_removedD(2) [OF k w1] show ?thesis
    by auto
qed

lemma removeClient_keeps_removed:
  assumes k: "keeps_removed E c" and out: "c \<notin> set (ws_clientIds E (m_worldServer s))"
  shows "c \<notin> set (ws_clientIds E (m_worldServer (snd (removeClient E c' s))))"
proof (cases "c' \<in> m_clients s")
  case False
  with out show ?thesis by (simp add: removeClient_def)
next
  case True
  obtain r packets s1 where t: "removeClient_try E c' s = (r, packets, s1)"
    using prod_cases3 by blast
  from removeClient_try_keeps_removed [OF k out t] True t show ?thesis
    by (cases r) (simp_all add: removeClient_def unregister_def)
qed

lemma perform_parked:
  assumes k: "keeps_removed E c" and h: "hook_ok E h"
    and reg: "c \<in> m_clients s" and q: "parked E c s"
    and op: "op \<noteq> RemoveClient c" "\<forall>t l. op \<noteq> AddClient c t l"
  shows "c \<in> m_clients (perform E h op s) \<and> parked E c (perform E h op s)"
proof (cases op)
  case (PushIncoming c' ps)
  with reg q show ?thesis
    by (auto simp: perform_def pushIncomingPackets_def parked_def dom_appendAll)
next
  case (PullOutgoing c')
  with reg q show ?thesis
    by (auto simp: perform_def pullOutgoingPackets_def take_queue_def parked_def)
next
  case (Tick f)
  have fr: "tick_frame s (snd (update E h f s))"
    by (rule tick_frame_update [OF h surjective_pairing])
  from q have "c \<notin> set (ws_clientIds E (m_worldServer s))" by (simp add: parked_def)
  with k h surjective_pairing have "c \<notin> set (ws_clientIds E (m_worldServer (snd (update E h f s))))"
    by (rule update_keeps_removed)
  with q fr have "parked E c (snd (update E h f s))" by (rule parked_frame)
  with reg fr Tick show ?thesis
    by (simp add: perform_def tick_frame_def)
next
  case (AddClient c' t l)
  with op have ne: "c' \<noteq> c" by auto
  from q have "c \<notin> set (ws_clientIds E (m_worldServer s))" by (simp add: parked_def)
  from keeps_removedD(6) [OF k this ne, of t l] addClient_engine [of E c' t l s]
  have "c \<notin> set (ws_clientIds E (m_worldServer (snd (addClient E c' t l s))))" by simp
  with reg q AddClient addClient_effect [OF surjective_pairing, of E c' t l s] show ?thesis
    by (auto simp: perform_def parked_def)
next
  case (RemoveClient c')
  with op have ne: "c' \<noteq> c" by auto
  from q have "c \<notin> set (ws_clientIds E (m_worldServer s))" by (simp add: parked_def)
  with k have "c \<notin> set (ws_clientIds E (m_worldServer (snd (removeClient E c' s))))"
    by (rule removeClient_keeps_removed)
  with reg q ne RemoveClient removeClient_effect [OF surjective_pairing, of E c' s] show ?thesis
    by (auto simp: perform_def parked_def split: if_splits)
next
  case (SetPause p)
  with reg q show ?thesis
    by (simp add: perform_def setPause_def parked_def)
qed

lemma perform_all_parked:
  assumes k: "keeps_removed E c" and h: "hook_ok E h"
    and "c \<in> m_clients s" and "parked E c s"
    and "\<forall>op\<in>set ops. op \<noteq> RemoveClient c \<and> (\<forall>t l. op \<noteq> AddClient c t l)"
  shows "c \<in> m_clients (perform_all E h ops s) \<and> parked E c (perform_all E h ops s)"
  using assms(3-)
proof (induction ops arbitrary: s)
  case Nil
  then show ?case by (simp add: perform_all_def)
next
  case (Cons op ops)
  from Cons.prems(3) have o: "op \<noteq> RemoveClient c" "\<forall>t l. op \<noteq> AddClient c t l"
    and rest: "\<forall>op\<in>set ops. op \<noteq> RemoveClient c \<and> (\<forall>t l. op \<noteq> AddClient c t l)"
    by simp_all
  from perform_parked [OF k h Cons.prems(1,2) o]
  have "c \<in> m_clients (perform E h op s)" and "parked E c (perform E h op s)" by simp_all
  from Cons.IH [OF this rest] show ?case
    by (simp add: perform_all_def)
qed

subsection \<open>The entries of an isolated client\<close>

lemma entries_logged_same_log:
  assumes "entries_logged c s0 s" and "logger s' = logger s"
    and "dom (m_incomingPacketQueue s) \<subseteq> dom (m_incomingPacketQueue s')"
    and "dom (m_outgoingPacketQueue s) \<subseteq> dom (m_outgoingPacketQueue s')"
  shows "entries_logged c s0 s'"
proof -
  from assms(1) obtain l where l: "logger s = logger s0 @ l"
    and q: "(\<exists>e. ExceptionCaughtHandling c e \<in> set l) \<longrightarrow>
              c \<in> dom (m_incomingPacketQueue s) \<and> c \<in> dom (m_outgoingPacketQueue s)"
    unfolding entries_logged_def by blast
  from q assms(3,4)
  have "(\<exists>e. ExceptionCaughtHandling c e \<in> set l) \<longrightarrow>
          c \<in> dom (m_incomingPacketQueue s') \<and> c \<in> dom (m_outgoingPacketQueue s')"
    by blast
  moreover from l assms(2) have "logger s' = logger s0 @ l" by simp
  ultimately show ?thesis
    unfolding entries_logged_def by blast
qed

lemma entries_logged_call:
  assumes "entries_logged c s0 s" and "engine_call f s = (r, s')"
  shows "entries_logged c s0 s'"
  by (rule entries_logged_same_log [OF assms(1)]) (simp_all add: engine_call_rest [OF assms(2)])

lemma deliverOne_entries:
  assumes p: "entries_logged c s0 s"
    and one: "deliverOne E c' ids s = (r, ids', s')"
  shows "entries_logged c s0 s'"
proof -
  from p obtain l where l: "logger s = logger s0 @ l"
    and q: "(\<exists>e. ExceptionCaughtHandling c e \<in> set l) \<Longrightarrow>
              c \<in> dom (m_incomingPacketQueue s) \<and> c \<in> dom (m_outgoingPacketQueue s)"
    unfolding entries_logged_def by blast
  have fr: "tick_frame s s'"
    using one by (rule tick_frame_deliverOne)
  have kept: "c \<in> dom (m_incomingPacketQueue s') \<and> c \<in> dom (m_outgoingPacketQueue s')"
    if "\<exists>e. ExceptionCaughtHandling c e \<in> set l"
    using q [OF that] fr by (auto simp: tick_frame_def)
  have handled: "entries_logged c s0 s'"
    if log: "logger s' = logger s0 @ (l @ [ExceptionCaughtHandling c' e])"
      and entries: "c' \<in> dom (m_incomingPacketQueue s') \<and> c' \<in> dom (m_outgoingPacketQueue s')" for e
  proof -
    have "c \<in> dom (m_incomingPacketQueue s') \<and> c \<in> dom (m_outgoingPacketQueue s')"
      if new: "\<exists>e'. ExceptionCaughtHandling c e' \<in> set (l @ [ExceptionCaughtHandling c' e])"
    proof (cases "c' = c")
      case True
      with entries show ?thesis by simp
    next
      case False
      with new have "\<exists>e'. ExceptionCaughtHandling c e' \<in> set l" by auto
      then show ?thesis by (rule kept)
    qed
    with log show ?thesis
      unfolding entries_logged_def by blast
  qed
  from one show ?thesis
  proof (cases rule: deliverOne_cases)
    case (delivered u')
    from engine_call_rest(1) [OF delivered(1)] l have "logger s' = logger s0 @ l"
      by simp
    with kept show ?thesis
      unfolding entries_logged_def by blast
  next
    case (removal_raised e s2 e')
    have "logger s' = logger s0 @ (l @ [ExceptionCaughtHandling c' e])"
      using engine_call_rest(1) [OF removal_raised(1)] engine_call_rest(1) [OF removal_raised(2)] l
      by simp
    moreover have "c' \<in> dom (m_incomingPacketQueue s') \<and> c' \<in> dom (m_outgoingPacketQueue s')"
      using engine_call_rest(2) [OF removal_raised(1)] engine_call_rest(2,3) [OF removal_raised(2)]
      by (simp add: dom_touch)
    ultimately show ?thesis by (rule handled)
  next
    case (isolated e s2 final s5)
    have "logger s' = logger s0 @ (l @ [ExceptionCaughtHandling c' e])"
      using engine_call_rest(1) [OF isolated(1)] engine_call_rest(1) [OF isolated(2)] isolated(3) l
      by simp
    moreover have "c' \<in> dom (m_incomingPacketQueue s') \<and> c' \<in> dom (m_outgoingPacketQueue s')"
      using engine_call_rest(2) [OF isolated(1)] engine_call_rest(2) [OF isolated(2)] isolated(3)
      by (simp add: dom_appendAll)
    ultimately show ?thesis by (rule handled)
  qed
qed

lemma update_entries:
  assumes h: "hook_ok E h" and run: "update E h f s = (r, s')"
  shows "entries_logged c s s'"
proof -
  have start: "entries_logged c s s"
    by (simp add: entries_logged_def)
  from run start show ?thesis
  proof (rule update_rule)
    fix c' ids1 s1 r2 ids2 s2
    assume "entries_logged c s s1" and "deliverOne E c' ids1 s1 = (r2, ids2, s2)"
    then show "entries_logged c s s2" by (rule deliverOne_entries)
  next
    fix s1 r2 s2
    assume "entries_logged c s s1" and "engine_call (\<lambda>w. ws_setFidelity E w f) s1 = (r2, s2)"
    then show "entries_logged c s s2" by (rule entries_logged_call)
  next
    fix s1 r2 s2
    assume "entries_logged c s s1" and "engine_call (ws_update E) s1 = (r2, s2)"
    then show "entries_logged c s s2" by (rule entries_logged_call)
  next
    fix c' s1 r2 s2
    assume "entries_logged c s s1" and "engine_call (\<lambda>w. ws_getOutgoingPackets E w c') s1 = (r2, s2)"
    then show "entries_logged c s s2" by (rule entries_logged_call)
  next
    fix c' ps s1
    assume "entries_logged c s s1"
    then show "entries_logged c s (s1\<lparr>m_outgoingPacketQueue := appendAll (m_outgoingPacketQueue s1) c' ps\<rparr>)"
      by (rule entries_logged_same_log) (auto simp: dom_appendAll)
  next
    fix action s1 r2 s2
    assume p: "entries_logged c s s1" and "h = Some action" and "action s1 = (r2, s2)"
    with h obtain w where s2: "s2 = s1\<lparr>m_worldServer := w\<rparr>"
      by (auto elim: hook_effect)
    from p show "entries_logged c s s2"
      by (rule entries_logged_same_log) (simp_all add: s2)
  qed
qed

lemma perform_registered:
  assumes h: "hook_ok E h"
    and reg: "c \<in> m_clients s"
    and q: "c \<in> dom (m_incomingPacketQueue s)" "c \<in> dom (m_outgoingPacketQueue s)"
    and op: "op \<noteq> RemoveClient c"
  shows "c \<in> m_clients (perform E h op s) \<and>
         c \<in> dom (m_incomingPacketQueue (perform E h op s)) \<and>
         c \<in> dom (m_outgoingPacketQueue (perform E h op s))"
proof (cases op)
  case (PushIncoming c' ps)
  with reg q show ?thesis
    by (auto simp: perform_def pushIncomingPackets_def dom_appendAll)
next
  case (PullOutgoing c')
  with reg q show ?thesis
    by (auto simp: perform_def pullOutgoingPackets_def take_queue_def)
next
  case (Tick f)
  have "tick_frame s (snd (update E h f s))"
    by (rule tick_frame_update [OF h surjective_pairing])
  with reg q Tick show ?thesis
    by (auto simp: perform_def tick_frame_def)
next
  case (AddClient c' t l)
  with reg q addClient_effect [OF surjective_pairing, of E c' t l s] show ?thesis
    by (auto simp: perform_def)
next
  case (RemoveClient c')
  with op have ne: "c' \<noteq> c" by auto
  with reg q RemoveClient removeClient_effect [OF surjective_pairing, of E c' s] show ?thesis
    by (auto simp: perform_def split: if_splits)
next
  case (SetPause p)
  with reg q show ?thesis
    by (simp add: perform_def setPause_def)
qed

lemma perform_all_registered:
  assumes h: "hook_ok E h"
    and "c \<in> m_clients s"
    and "c \<in> dom (m_incomingPacketQueue s)" "c \<in> dom (m_outgoingPacketQueue s)"
    and "\<forall>op\<in>set ops. op \<noteq> RemoveClient c"
  shows "c \<in> m_clients (perform_all E h ops s) \<and>
         c \<in> dom (m_incomingPacketQueue (perform_all E h ops s)) \<and>
         c \<in> dom (m_outgoingPacketQueue (perform_all E h ops s))"
  using assms(2-)
proof (induction ops arbitrary: s)
  case Nil
  then show ?case by (simp add: perform_all_def)
next
  case (Cons op ops)
  from Cons.prems(4) have o: "op \<noteq> RemoveClient c" and rest: "\<forall>op\<in>set ops. op \<noteq> RemoveClient c"
    by simp_all
  from perform_registered [OF h Cons.prems(1-3) o]
  have "c \<in> m_clients (perform E h op s)"
    and "c \<in> dom (m_incomingPacketQueue (perform E h op s))"
    and "c \<in> dom (m_outgoingPacketQueue (perform E h op s))"
    by simp_all
  from Cons.IH [OF this rest] show ?case
    by (simp add: perform_all_def)
qed

text \<open>
  C9, as the code has it. Let a tick (with no update action, or with one that works on the
  engine only) run to its end and log a fault of the delivery for a registered client id.
  Then, after the tick and after every further history of pushes, pulls, ticks, pause
  changes, additions of any id and removals of other ids, the id is still in the registry
  and a key of both queue maps: only \<open>removeClient\<close> of the id erases them. If moreover the
  engine keeps a removed client removed (\<open>keeps_removed\<close>) and the history has no
  \<open>addClient\<close> of the id, \<open>erroredClients\<close> contains the id after the history. An
  \<open>addClient\<close> of the id ends that without any \<open>removeClient\<close>: \<open>addClient\<close> does not look at
  the registry, and once the engine has accepted the id it lists it again.
\<close>

theorem isolated_client_stays_errored:
  assumes "hook_ok E h"
    and "clientId \<in> m_clients s"
    and "update E h fidelity s = (Returned u, s1)"
    and "ExceptionCaughtHandling clientId e \<in> set (drop (length (logger s)) (logger s1))"
    and "\<forall>op\<in>set ops. op \<noteq> RemoveClient clientId"
  shows "clientId \<in> m_clients (perform_all E h ops s1) \<and>
         clientId \<in> dom (m_incomingPacketQueue (perform_all E h ops s1)) \<and>
         clientId \<in> dom (m_outgoingPacketQueue (perform_all E h ops s1)) \<and>
         (keeps_removed E clientId \<and> (\<forall>op\<in>set ops. \<forall>t l. op \<noteq> AddClient clientId t l) \<longrightarrow>
            clientId \<in> erroredClients E (perform_all E h ops s1))"
proof -
  have "tick_frame s s1"
    using assms(1,3) by (rule tick_frame_update)
  with assms(2) have reg: "clientId \<in> m_clients s1"
    by (simp add: tick_frame_def)
  from update_entries [OF assms(1,3), of clientId] obtain l where l: "logger s1 = logger s @ l"
    and q: "(\<exists>e. ExceptionCaughtHandling clientId e \<in> set l) \<longrightarrow>
              clientId \<in> dom (m_incomingPacketQueue s1) \<and> clientId \<in> dom (m_outgoingPacketQueue s1)"
    unfolding entries_logged_def by blast
  from l assms(4) have "ExceptionCaughtHandling clientId e \<in> set l" by simp
  with q have "clientId \<in> dom (m_incomingPacketQueue s1)" "clientId \<in> dom (m_outgoingPacketQueue s1)"
    by blast+
  with assms(1) reg have entries:
    "clientId \<in> m_clients (perform_all E h ops s1) \<and>
     clientId \<in> dom (m_incomingPacketQueue (perform_all E h ops s1)) \<and>
     clientId \<in> dom (m_outgoingPacketQueue (perform_all E h ops s1))"
    using assms(5) by (rule perform_all_registered)
  have "clientId \<in> erroredClients E (perform_all E h ops s1)"
    if k: "keeps_removed E clientId" and noadd: "\<forall>op\<in>set ops. \<forall>t l. op \<noteq> AddClient clientId t l"
  proof -
    from update_logged [OF k assms(1,3)] obtain l' where l': "logger s1 = logger s @ l'"
      and q': "(\<exists>e. ExceptionCaughtHandling clientId e \<in> set l') \<longrightarrow> parked E clientId s1"
      unfolding isolation_logged_def by blast
    from l' assms(4) have "ExceptionCaughtHandling clientId e \<in> set l'" by simp
    with q' have parked: "parked E clientId s1" by blast
    from assms(5) noadd
    have "\<forall>op\<in>set ops. op \<noteq> RemoveClient clientId \<and> (\<forall>t l. op \<noteq> AddClient clientId t l)"
      by blast
    from perform_all_parked [OF k assms(1) reg parked this] show ?thesis
      by (simp add: parked_def erroredClients_def)
  qed
  with entries show ?thesis by blast
qed

text \<open>
  An instance on \<open>hostA\<close>: the first tick isolates client 1; after a push, a tick, a pull,
  the removal of client 2 and the addition of client 4, client 1 is still registered, a
  key of both queue maps, and errored.
\<close>

theorem isolated_client_stays_errored_witness:
  "hook_ok echoEngine None \<and> 1 \<in> m_clients hostA \<and>
   fst (update echoEngine None Medium hostA) = Returned () \<and>
   logger hostA = [] \<and>
   logger (snd (update echoEngine None Medium hostA)) = [ExceptionCaughtHandling 1 ''bad packet''] \<and>
   list_all (\<lambda>op. op \<noteq> RemoveClient 1)
     [PushIncoming 1 [12], Tick Low, PullOutgoing 1, RemoveClient 2, AddClient 4 1 False] \<and>
   keeps_removed echoEngine 1 \<and>
   1 \<in> m_clients (perform_all echoEngine None
          [PushIncoming 1 [12], Tick Low, PullOutgoing 1, RemoveClient 2, AddClient 4 1 False]
          (snd (update echoEngine None Medium hostA))) \<and>
   1 \<in> dom (m_incomingPacketQueue (perform_all echoEngine None
          [PushIncoming 1 [12], Tick Low, PullOutgoing 1, RemoveClient 2, AddClient 4 1 False]
          (snd (update echoEngine None Medium hostA)))) \<and>
   1 \<in> dom (m_outgoingPacketQueue (perform_all echoEngine None
          [PushIncoming 1 [12], Tick Low, PullOutgoing 1, RemoveClient 2, AddClient 4 1 False]
          (snd (update echoEngine None Medium hostA)))) \<and>
   1 \<in> erroredClients echoEngine (perform_all echoEngine None
          [PushIncoming 1 [12], Tick Low, PullOutgoing 1, RemoveClient 2, AddClient 4 1 False]
          (snd (update echoEngine None Medium hostA)))"
proof -
  let ?ops = "[PushIncoming 1 [12], Tick Low, PullOutgoing 1, RemoveClient 2, AddClient 4 1 False]"
  have a: "keeps_removed echoEngine 1"
    by (auto simp: keeps_removed_def echoEngine_def guarded_def)
  have b: "hook_ok echoEngine None"
    by (simp add: hook_ok_def)
  have c: "1 \<in> m_clients hostA"
    by (simp add: hostA_def)
  have d1: "fst (update echoEngine None Medium hostA) = Returned ()"
    by (simp add: tick_eval echo_eval hostA_def)
  then have d: "update echoEngine None Medium hostA = (Returned (), snd (update echoEngine None Medium hostA))"
    by (simp add: prod_eq_iff)
  have e1: "logger hostA = []"
    by (simp add: hostA_def)
  have e2: "logger (snd (update echoEngine None Medium hostA)) = [ExceptionCaughtHandling 1 ''bad packet'']"
    by (simp add: tick_eval echo_eval hostA_def)
  have e: "ExceptionCaughtHandling 1 ''bad packet''
             \<in> set (drop (length (logger hostA)) (logger (snd (update echoEngine None Medium hostA))))"
    by (simp add: e1 e2)
  have f: "\<forall>op\<in>set ?ops. op \<noteq> RemoveClient 1"
    by simp
  have g: "\<forall>op\<in>set ?ops. \<forall>t l. op \<noteq> AddClient 1 t l"
    by simp
  from isolated_client_stays_errored [OF b c d e f] a g
  have "1 \<in> m_clients (perform_all echoEngine None ?ops (snd (update echoEngine None Medium hostA))) \<and>
        1 \<in> dom (m_incomingPacketQueue (perform_all echoEngine None ?ops (snd (update echoEngine None Medium hostA)))) \<and>
        1 \<in> dom (m_outgoingPacketQueue (perform_all echoEngine None ?ops (snd (update echoEngine None Medium hostA)))) \<and>
        1 \<in> erroredClients echoEngine (perform_all echoEngine None ?ops (snd (update echoEngine None Medium hostA)))"
    by blast
  with a b c d1 e1 e2 show ?thesis
    by simp
qed

text \<open>
  The claim as the specification words it fails when the id is added again: on \<open>hostA\<close> the
  tick isolates client 1, which is then errored; \<open>addClient\<close> for the id 1 is accepted by
  the engine and returns true, and client 1, which was never removed, is no longer among
  the errored clients.
\<close>

theorem isolated_client_readded_counterexample:
  "1 \<in> m_clients hostA \<and>
   fst (update echoEngine None Medium hostA) = Returned () \<and>
   logger (snd (update echoEngine None Medium hostA)) = [ExceptionCaughtHandling 1 ''bad packet''] \<and>
   1 \<in> erroredClients echoEngine (snd (update echoEngine None Medium hostA)) \<and>
   fst (addClient echoEngine 1 5 False (snd (update echoEngine None Medium hostA))) = Returned True \<and>
   1 \<in> m_clients (snd (addClient echoEngine 1 5 False (snd (update echoEngine None Medium hostA)))) \<and>
   1 \<notin> erroredClients echoEngine (snd (addClient echoEngine 1 5 False (snd (update echoEngine None Medium hostA))))"
  by (simp add: addClient_def try_catch_def caught_def erroredClients_def
      tick_eval echo_eval hostA_def)


end
